theory Spec2Isabelle
  imports Main "HOL-Library.Word"
begin

section \<open>JavaScript strings\<close>

text \<open>
  A JavaScript string is a sequence of UTF-16 code units. The parser looks for the
  box-drawing glyphs U+251C, U+2514, U+2502 and U+2500 (one code unit each), measures
  indentation with \<open>length\<close> and strips white space with \<open>trim\<close> and \<open>\s\<close>, so strings
  are modelled as lists of 16-bit words. \<open>ascii\<close> embeds an ASCII literal.
\<close>

type_synonym jschar = "16 word"
type_synonym jsstring = "jschar list"

definition ascii :: "string \<Rightarrow> jsstring" where
  "ascii s = map of_char s"

definition nl :: jschar where "nl = 0x0A"
definition hash :: jschar where "hash = 0x23"
definition dash :: jschar where "dash = 0x2D"
definition slash :: jschar where "slash = 0x2F"
definition space :: jschar where "space = 0x20"

text \<open>The box-drawing glyphs: branch (U+251C), corner (U+2514), vertical (U+2502),
  horizontal (U+2500).\<close>

definition glyphBranch :: jschar where "glyphBranch = 0x251C"
definition glyphCorner :: jschar where "glyphCorner = 0x2514"
definition glyphVertical :: jschar where "glyphVertical = 0x2502"
definition glyphHorizontal :: jschar where "glyphHorizontal = 0x2500"

text \<open>
  ECMAScript \<open>LineTerminator\<close>: LF, CR, LS, PS. The regular expression atom \<open>.\<close>
  (without the \<open>s\<close> flag) matches every code unit but these.
\<close>

definition isLineTerminator :: "jschar \<Rightarrow> bool" where
  "isLineTerminator c = (c = 0x0A \<or> c = 0x0D \<or> c = 0x2028 \<or> c = 0x2029)"

text \<open>
  What \<open>String.prototype.trim\<close> strips and the class \<open>\s\<close> matches: ECMAScript
  \<open>WhiteSpace\<close> (TAB, VT, FF, ZWNBSP and the space separators) and \<open>LineTerminator\<close>.
\<close>

definition isWhiteSpace :: "jschar \<Rightarrow> bool" where
  "isWhiteSpace c =
     (c = 0x09 \<or> c = 0x0B \<or> c = 0x0C \<or> c = 0x20 \<or> c = 0xA0 \<or> c = 0x1680
      \<or> (0x2000 \<le> c \<and> c \<le> 0x200A) \<or> c = 0x202F \<or> c = 0x205F \<or> c = 0x3000
      \<or> c = 0xFEFF \<or> isLineTerminator c)"

definition trim :: "jsstring \<Rightarrow> jsstring" where
  "trim s = rev (dropWhile isWhiteSpace (rev (dropWhile isWhiteSpace s)))"

text \<open>\<open>s.split(d)\<close> for a one-unit separator: never empty, \<open>''''.split(d) = ['''']\<close>.\<close>

fun split_on :: "jschar \<Rightarrow> jsstring \<Rightarrow> jsstring list" where
  "split_on d [] = [[]]"
| "split_on d (c # cs) =
     (if c = d then [] # split_on d cs
      else (case split_on d cs of [] \<Rightarrow> [[c]] | l # ls \<Rightarrow> (c # l) # ls))"

text \<open>\<open>ls.join(d)\<close>.\<close>

fun join_with :: "jschar \<Rightarrow> jsstring list \<Rightarrow> jsstring" where
  "join_with d [] = []"
| "join_with d [l] = l"
| "join_with d (l # m # ls) = l @ d # join_with d (m # ls)"

definition startsWith :: "jschar \<Rightarrow> jsstring \<Rightarrow> bool" where
  "startsWith c s = (case s of [] \<Rightarrow> False | x # _ \<Rightarrow> x = c)"

definition endsWith :: "jschar \<Rightarrow> jsstring \<Rightarrow> bool" where
  "endsWith c s = (s \<noteq> [] \<and> last s = c)"

text \<open>\<open>s.indexOf(c)\<close>, with \<open>None\<close> for \<open>-1\<close>.\<close>

fun indexOf :: "jschar \<Rightarrow> jsstring \<Rightarrow> nat option" where
  "indexOf c [] = None"
| "indexOf c (x # xs) =
     (if x = c then Some 0 else (case indexOf c xs of None \<Rightarrow> None | Some i \<Rightarrow> Some (Suc i)))"

text \<open>\<open>s.substring(a, b)\<close> for \<open>a \<le> b\<close>; both ends are clamped to the length.\<close>

definition substring :: "jsstring \<Rightarrow> nat \<Rightarrow> nat \<Rightarrow> jsstring" where
  "substring s a b = take (b - a) (drop a s)"

text \<open>\<open>s.includes(sub)\<close>.\<close>

fun includesStr :: "jsstring \<Rightarrow> jsstring \<Rightarrow> bool" where
  "includesStr [] sub = (sub = [])"
| "includesStr (c # cs) sub = (take (length sub) (c # cs) = sub \<or> includesStr cs sub)"

section \<open>The tree model\<close>

text \<open>
  The declarations of \<open>lib/types\<close> (\<open>TreeNode\<close>, \<open>ParseResult\<close>, \<open>InputFormat\<close>). A
  \<open>TreeNode\<close> has \<open>id\<close>, \<open>name\<close>, \<open>type\<close> (\<open>'file' | 'folder'\<close>), the optional \<open>children\<close>
  ("only for folders") and \<open>isExpanded\<close> ("only for folders"), and the number \<open>depth\<close>,
  documented as "Depth level in the tree hierarchy (0 for root)". The parsers only
  write integers to \<open>depth\<close>.
\<close>

datatype NodeType = Folder | File

datatype TreeNode = TreeNode
  (node_id: jsstring)
  (name: jsstring)
  (node_type: NodeType)
  (depth: int)
  (isExpanded: "bool option")
  (children: "TreeNode list option")

datatype ParseResult = Success "TreeNode list" | Failure jsstring

datatype InputFormat = Markdown | Ascii | Unknown

text \<open>The truth value JavaScript gives an optional boolean (\<open>undefined\<close> is falsy).\<close>

definition truthy :: "bool option \<Rightarrow> bool" where
  "truthy b = (b = Some True)"

section \<open>The parser (src/lib/parser.ts)\<close>

subsection \<open>detectFormat\<close>

definition asciiChars :: "jschar list" where
  "asciiChars = [glyphBranch, glyphCorner, glyphVertical, glyphHorizontal]"

definition detectFormat :: "jsstring \<Rightarrow> InputFormat" where
  "detectFormat input =
     (let hasAsciiChars = list_ex (\<lambda>ch. ch \<in> set input) asciiChars in
      if hasAsciiChars then Ascii
      else
        let lines = filter (\<lambda>line. trim line \<noteq> []) (split_on nl (trim input));
            hasMarkdownFormat = list_ex (\<lambda>line. startsWith dash (trim line)) lines
        in if hasMarkdownFormat then Markdown
           else if length lines > 0 then Markdown
           else Unknown)"

subsection \<open>sanitizeInput\<close>

text \<open>The callback of \<open>map\<close>: a comment line becomes empty, an inline comment is cut off.\<close>

definition stripComment :: "jsstring \<Rightarrow> jsstring" where
  "stripComment line =
     (if startsWith hash (trim line) then []
      else (case indexOf hash line of
              None \<Rightarrow> line
            | Some commentIndex \<Rightarrow> substring line 0 commentIndex))"

text \<open>The character class \<open>[a-zA-Z0-9_.\-/]\<close>.\<close>

definition isContentChar :: "jschar \<Rightarrow> bool" where
  "isContentChar c =
     ((0x61 \<le> c \<and> c \<le> 0x7A) \<or> (0x41 \<le> c \<and> c \<le> 0x5A) \<or> (0x30 \<le> c \<and> c \<le> 0x39)
      \<or> c = 0x5F \<or> c = 0x2E \<or> c = 0x2D \<or> c = 0x2F)"

text \<open>The callback of \<open>filter\<close>.\<close>

definition keepLine :: "jsstring \<Rightarrow> bool" where
  "keepLine line =
     (let trimmed = trim line in
      if length trimmed = 0 then False
      else list_ex isContentChar trimmed)"

definition sanitizeInput :: "jsstring \<Rightarrow> jsstring" where
  "sanitizeInput input = join_with nl (filter keepLine (map stripComment (split_on nl input)))"

subsection \<open>Building the forest\<close>

text \<open>
  Both parsers build the forest by mutation: \<open>stack\<close> holds references to folder nodes
  that are already in \<open>root\<close> (or in the \<open>children\<close> of another node), and
  \<open>parent.children.push(node)\<close> through such a reference changes the forest. The
  model keeps \<open>root\<close> as a value and a reference as the index path of the node below
  \<open>root\<close>, \<open>Some [i, j, \<dots>]\<close> for \<open>root[i].children[j]\<dots>\<close>; \<open>None\<close> is a node object that
  was never linked into the forest. The top of the stack is the head of the list.
  \<open>created\<close> counts the calls of \<open>generateId\<close>: the identifiers come from the clock and
  the random number generator, so the parsers take the sequence \<open>gen\<close> of identifiers
  that \<open>generateId\<close> returns as a parameter.
\<close>

type_synonym ref = "nat list option"

record parse_state =
  root :: "TreeNode list"
  stack :: "(ref \<times> int) list"
  created :: nat

definition set_children :: "TreeNode \<Rightarrow> TreeNode list option \<Rightarrow> TreeNode" where
  "set_children n cs = TreeNode (node_id n) (name n) (node_type n) (depth n) (isExpanded n) cs"

text \<open>Reading through a reference.\<close>

fun node_at :: "TreeNode list \<Rightarrow> nat list \<Rightarrow> TreeNode option" where
  "node_at f [] = None"
| "node_at f (i # p) =
     (if i < length f
      then (if p = [] then Some (f ! i)
            else (case children (f ! i) of None \<Rightarrow> None | Some cs \<Rightarrow> node_at cs p))
      else None)"

text \<open>\<open>if (parent.children) parent.children.push(node)\<close> through the reference \<open>i # p\<close>.\<close>

fun push_child :: "nat list \<Rightarrow> TreeNode \<Rightarrow> TreeNode list \<Rightarrow> TreeNode list" where
  "push_child [] n f = f"
| "push_child (i # p) n f =
     (if i < length f
      then (case children (f ! i) of
              None \<Rightarrow> f
            | Some cs \<Rightarrow>
                f[i := set_children (f ! i) (Some (if p = [] then cs @ [n] else push_child p n cs))])
      else f)"

text \<open>
  The block "find parent", the same in both parsers and in both branches of the
  Markdown parser: pop while the top entry's key is at least \<open>key\<close>, link the node under
  the new top (or into \<open>root\<close>), push a folder.
\<close>

definition attach :: "TreeNode \<Rightarrow> int \<Rightarrow> bool \<Rightarrow> parse_state \<Rightarrow> parse_state" where
  "attach node key isFolder st =
     (let stk = dropWhile (\<lambda>e. snd e \<ge> key) (stack st) in
      case stk of
        [] \<Rightarrow>
          st\<lparr>root := root st @ [node],
             stack := (if isFolder then [(Some [length (root st)], key)] else [])\<rparr>
      | (None, _) # _ \<Rightarrow>
          st\<lparr>stack := (if isFolder then (None, key) # stk else stk)\<rparr>
      | (Some p, _) # _ \<Rightarrow>
          (case node_at (root st) p of
             None \<Rightarrow> st\<lparr>stack := (if isFolder then (None, key) # stk else stk)\<rparr>
           | Some parent \<Rightarrow>
               (case children parent of
                  None \<Rightarrow> st\<lparr>stack := (if isFolder then (None, key) # stk else stk)\<rparr>
                | Some cs \<Rightarrow>
                    st\<lparr>root := push_child p node (root st),
                       stack := (if isFolder then (Some (p @ [length cs]), key) # stk else stk)\<rparr>)))"

text \<open>The node literal of the parsers: a trailing slash makes a folder and is dropped.\<close>

definition newNode :: "(nat \<Rightarrow> jsstring) \<Rightarrow> jsstring \<Rightarrow> int \<Rightarrow> parse_state \<Rightarrow> TreeNode" where
  "newNode gen nm d st =
     (let isFolder = endsWith slash nm in
      TreeNode (gen (created st))
        (if isFolder then butlast nm else nm)
        (if isFolder then Folder else File)
        d
        (Some True)
        (if isFolder then Some [] else None))"

definition addNode :: "(nat \<Rightarrow> jsstring) \<Rightarrow> jsstring \<Rightarrow> int \<Rightarrow> int \<Rightarrow> parse_state \<Rightarrow> parse_state" where
  "addNode gen nm d key st =
     attach (newNode gen nm d st) key (endsWith slash nm) (st\<lparr>created := Suc (created st)\<rparr>)"

text \<open>
  The normalization after the loop: with exactly one root, a folder with at least one
  child, \<open>adjustDepth(root[0].children, 1)\<close> adds one to the depth of every node below
  the root.
\<close>

fun adjustDepth :: "int \<Rightarrow> TreeNode \<Rightarrow> TreeNode" where
  "adjustDepth increment (TreeNode i n t d e cs) =
     TreeNode i n t (d + increment) e (map_option (map (adjustDepth increment)) cs)"

definition normalize :: "TreeNode list \<Rightarrow> TreeNode list" where
  "normalize rt =
     (case rt of
        [r] \<Rightarrow>
          (case children r of
             Some (c # cs) \<Rightarrow>
               (if node_type r = Folder
                then [set_children r (Some (map (adjustDepth 1) (c # cs)))]
                else rt)
           | _ \<Rightarrow> rt)
      | _ \<Rightarrow> rt)"

definition noStructure :: jsstring where
  "noStructure = ascii ''No valid directory structure found in input''"

definition finish :: "parse_state \<Rightarrow> ParseResult" where
  "finish st = (if length (root st) = 0 then Failure noStructure else Success (normalize (root st)))"

definition initial :: parse_state where
  "initial = \<lparr>root = [], stack = [], created = 0\<rparr>"

subsection \<open>parseMarkdown\<close>

text \<open>
  A greedy quantifier tries its longest match first and gives back one code unit at a
  time: \<open>greedy n f\<close> is the first success of \<open>f n, f (n - 1), \<dots>, f 0\<close>.
\<close>

fun greedy :: "nat \<Rightarrow> (nat \<Rightarrow> 'a option) \<Rightarrow> 'a option" where
  "greedy 0 f = f 0"
| "greedy (Suc n) f = (case f (Suc n) of Some r \<Rightarrow> Some r | None \<Rightarrow> greedy n f)"

text \<open>\<open>(.+)$\<close> at the end of a pattern without the \<open>m\<close> flag: the whole rest, not empty,
  without a line terminator.\<close>

definition dotPlusEnd :: "jsstring \<Rightarrow> bool" where
  "dotPlusEnd r = (r \<noteq> [] \<and> list_all (\<lambda>c. \<not> isLineTerminator c) r)"

text \<open>\<open>line.match(/^(\s*)-\s*(.+)$/)\<close>: the groups 1 and 2 of the match.\<close>

definition matchBullet :: "jsstring \<Rightarrow> (jsstring \<times> jsstring) option" where
  "matchBullet line =
     greedy (length (takeWhile isWhiteSpace line))
       (\<lambda>k. case drop k line of
               [] \<Rightarrow> None
             | c # r \<Rightarrow>
                 if c = dash
                 then greedy (length (takeWhile isWhiteSpace r))
                        (\<lambda>j. if dotPlusEnd (drop j r) then Some (take k line, drop j r) else None)
                 else None)"

text \<open>\<open>line.match(/^(\s*)(.+)$/)\<close>.\<close>

definition matchPlain :: "jsstring \<Rightarrow> (jsstring \<times> jsstring) option" where
  "matchPlain line =
     greedy (length (takeWhile isWhiteSpace line))
       (\<lambda>k. if dotPlusEnd (drop k line) then Some (take k line, drop k line) else None)"

text \<open>The body of the loop over the lines.\<close>

definition markdownLine :: "(nat \<Rightarrow> jsstring) \<Rightarrow> jsstring \<Rightarrow> parse_state \<Rightarrow> parse_state" where
  "markdownLine gen line st =
     (if trim line = [] then st
      else
        (case matchBullet line of
           None \<Rightarrow>
             (case matchPlain line of
                None \<Rightarrow> st
              | Some (g1, g2) \<Rightarrow>
                  if trim g2 \<noteq> []
                  then (let indent = int (length g1) in addNode gen (trim g2) (indent div 2) indent st)
                  else st)
         | Some (g1, g2) \<Rightarrow>
             (let indent = int (length g1) in addNode gen (trim g2) (indent div 2) indent st)))"

text \<open>
  No operation of the loop throws, so the \<open>catch\<close> branch ("Failed to parse markdown
  format") has no counterpart in the model.
\<close>

definition parseMarkdown :: "(nat \<Rightarrow> jsstring) \<Rightarrow> jsstring \<Rightarrow> ParseResult" where
  "parseMarkdown gen input = finish (fold (markdownLine gen) (split_on nl input) initial)"

subsection \<open>parseAscii\<close>

definition tokBranch :: jsstring where
  "tokBranch = [glyphBranch, glyphHorizontal, glyphHorizontal]"
definition tokCorner :: jsstring where
  "tokCorner = [glyphCorner, glyphHorizontal, glyphHorizontal]"
definition tokVertical :: jsstring where
  "tokVertical = [glyphVertical, space, space, space]"
definition tokBlank :: jsstring where
  "tokBlank = [space, space, space, space]"

text \<open>
  The \<open>while\<close> loop over the prefix of a line. The state is \<open>cleanLine\<close>, \<open>pos\<close>, \<open>level\<close>
  and \<open>foundTreeChar\<close>; the tokens are tried in the order of \<open>treeChars\<close>. After a
  connector the loop goes on, at the same \<open>pos\<close>, in the shortened \<open>cleanLine\<close>.
  (\<open>hasTreeChars\<close> is written and never read.)
\<close>

function scanPrefix :: "jsstring \<Rightarrow> nat \<Rightarrow> int \<Rightarrow> bool \<Rightarrow> jsstring \<times> int \<times> bool" where
  "scanPrefix cleanLine pos level foundTreeChar =
     (if pos < length cleanLine then
        (if substring cleanLine pos (pos + 3) = tokBranch
         then scanPrefix (trim (drop (pos + 3) cleanLine)) pos level True
         else if substring cleanLine pos (pos + 3) = tokCorner
         then scanPrefix (trim (drop (pos + 3) cleanLine)) pos level True
         else if substring cleanLine pos (pos + 4) = tokVertical
         then scanPrefix cleanLine (pos + 4) (level + 1) True
         else if substring cleanLine pos (pos + 4) = tokBlank
         then scanPrefix cleanLine (pos + 4) (level + 1) True
         else (trim cleanLine, level, foundTreeChar))
      else (cleanLine, level, foundTreeChar))"
  by pat_completeness auto

lemma length_trim_le: "length (trim s) \<le> length s"
  unfolding trim_def
  using length_dropWhile_le [of isWhiteSpace "rev (dropWhile isWhiteSpace s)"]
        length_dropWhile_le [of isWhiteSpace s]
  by simp

termination scanPrefix
proof (relation "measure (\<lambda>(cleanLine, pos, level, found). length cleanLine - pos)")
  show "wf (measure (\<lambda>(cleanLine, pos, level, found). length cleanLine - pos))"
    by simp
next
  fix cleanLine :: jsstring and pos :: nat and level :: int and foundTreeChar :: bool
  assume "pos < length cleanLine"
  moreover have "length (trim (drop (pos + 3) cleanLine)) \<le> length cleanLine - (pos + 3)"
    using length_trim_le [of "drop (pos + 3) cleanLine"] by simp
  ultimately show "((trim (drop (pos + 3) cleanLine), pos, level, True),
                    (cleanLine, pos, level, foundTreeChar))
                   \<in> measure (\<lambda>(cleanLine, pos, level, found). length cleanLine - pos)"
    by simp
  then show "((trim (drop (pos + 3) cleanLine), pos, level, True),
              (cleanLine, pos, level, foundTreeChar))
             \<in> measure (\<lambda>(cleanLine, pos, level, found). length cleanLine - pos)" .
next
  fix cleanLine :: jsstring and pos :: nat and level :: int and foundTreeChar :: bool
  assume "pos < length cleanLine"
  then show "((cleanLine, pos + 4, level + 1, True), (cleanLine, pos, level, foundTreeChar))
             \<in> measure (\<lambda>(cleanLine, pos, level, found). length cleanLine - pos)"
    by simp
  then show "((cleanLine, pos + 4, level + 1, True), (cleanLine, pos, level, foundTreeChar))
             \<in> measure (\<lambda>(cleanLine, pos, level, found). length cleanLine - pos)" .
qed

text \<open>
  The body of the loop over the lines, for the line of index \<open>i\<close>. A first line without
  a tree token that ends with a slash is the root folder, pushed with level \<open>-1\<close>.
\<close>

definition asciiLine :: "(nat \<Rightarrow> jsstring) \<Rightarrow> nat \<times> jsstring \<Rightarrow> parse_state \<Rightarrow> parse_state" where
  "asciiLine gen il st =
     (let i = fst il; line = snd il in
      if trim line = [] then st
      else
        (case scanPrefix line 0 0 False of
           (cleanLine, level, foundTreeChar) \<Rightarrow>
             (let nm = trim cleanLine in
              if nm = [] then st
              else if \<not> foundTreeChar \<and> i = 0 \<and> endsWith slash nm
              then st\<lparr>root := root st @ [TreeNode (gen (created st)) (butlast nm) Folder 0
                                            (Some True) (Some [])],
                      stack := (Some [length (root st)], - 1) # stack st,
                      created := Suc (created st)\<rparr>
              else addNode gen nm level level st)))"

text \<open>As in \<open>parseMarkdown\<close>, nothing in the loop throws.\<close>

definition parseAscii :: "(nat \<Rightarrow> jsstring) \<Rightarrow> jsstring \<Rightarrow> ParseResult" where
  "parseAscii gen input =
     finish (fold (asciiLine gen) (enumerate 0 (split_on nl input)) initial)"

subsection \<open>parseDirectoryStructure\<close>

definition inputEmpty :: jsstring where
  "inputEmpty = ascii ''Input is empty. Please provide a directory structure.''"

definition onlyComments :: jsstring where
  "onlyComments = ascii ''Input contains only comments or whitespace. Please provide a valid directory structure.''"

definition unableToDetect :: jsstring where
  "unableToDetect =
     ascii ''Unable to detect input format. Please use markdown (- folder/) or ASCII (''
     @ tokBranch @ ascii '' folder/) format.''"

definition parseDirectoryStructure :: "(nat \<Rightarrow> jsstring) \<Rightarrow> jsstring \<Rightarrow> ParseResult" where
  "parseDirectoryStructure gen input =
     (if input = [] \<or> trim input = [] then Failure inputEmpty
      else
        (let sanitizedInput = sanitizeInput input in
         if trim sanitizedInput = [] then Failure onlyComments
         else
           (let format = detectFormat sanitizedInput in
            if format = Unknown then Failure unableToDetect
            else if format = Markdown then parseMarkdown gen sanitizedInput
            else parseAscii gen sanitizedInput)))"

section \<open>The tree state engine (src/hooks/useTreeState.ts)\<close>

text \<open>
  \<open>TreeState\<close> and \<open>TreeAction\<close> as \<open>lib/types\<close> declares them. \<open>ADD_NODE\<close> carries
  \<open>parentId\<close> and \<open>nodeType\<close>; the reducer has no case for it and returns the state
  through its \<open>default\<close> branch.
\<close>

record TreeState =
  nodes :: "TreeNode list"
  selectedNodeId :: "jsstring option"

datatype TreeAction =
    SET_TREE "TreeNode list"
  | TOGGLE_EXPAND jsstring
  | RENAME_NODE jsstring jsstring
  | DELETE_NODE jsstring
  | SELECT_NODE "jsstring option"
  | ADD_NODE jsstring NodeType

text \<open>
  Each helper maps a callback over the list; the callback is the function on one node,
  and \<open>map_option\<close> is the test \<open>if (node.children)\<close> (an empty array is truthy).
\<close>

fun toggleNode :: "jsstring \<Rightarrow> TreeNode \<Rightarrow> TreeNode" where
  "toggleNode targetId (TreeNode i n t d e cs) =
     (if i = targetId \<and> t = Folder
      then TreeNode i n t d (Some (\<not> truthy e)) cs
      else TreeNode i n t d e (map_option (map (toggleNode targetId)) cs))"

definition toggleNodeExpand :: "TreeNode list \<Rightarrow> jsstring \<Rightarrow> TreeNode list" where
  "toggleNodeExpand ns targetId = map (toggleNode targetId) ns"

fun renameIn :: "jsstring \<Rightarrow> jsstring \<Rightarrow> TreeNode \<Rightarrow> TreeNode" where
  "renameIn targetId newName (TreeNode i n t d e cs) =
     (if i = targetId
      then TreeNode i newName t d e cs
      else TreeNode i n t d e (map_option (map (renameIn targetId newName)) cs))"

definition renameNode :: "TreeNode list \<Rightarrow> jsstring \<Rightarrow> jsstring \<Rightarrow> TreeNode list" where
  "renameNode ns targetId newName = map (renameIn targetId newName) ns"

fun deleteIn :: "jsstring \<Rightarrow> TreeNode \<Rightarrow> TreeNode" where
  "deleteIn targetId (TreeNode i n t d e cs) =
     TreeNode i n t d e
       (map_option (\<lambda>c. map (deleteIn targetId) (filter (\<lambda>x. node_id x \<noteq> targetId) c)) cs)"

definition deleteNode :: "TreeNode list \<Rightarrow> jsstring \<Rightarrow> TreeNode list" where
  "deleteNode ns targetId = map (deleteIn targetId) (filter (\<lambda>x. node_id x \<noteq> targetId) ns)"

text \<open>The \<open>for\<close> loop with its early returns; \<open>None\<close> is \<open>null\<close>.\<close>

fun findNodeById :: "TreeNode list \<Rightarrow> jsstring \<Rightarrow> TreeNode option" where
  "findNodeById [] targetId = None"
| "findNodeById (TreeNode i n t d e cs # rest) targetId =
     (if i = targetId then Some (TreeNode i n t d e cs)
      else (case cs of
              None \<Rightarrow> findNodeById rest targetId
            | Some c \<Rightarrow>
                (case findNodeById c targetId of
                   Some found \<Rightarrow> Some found
                 | None \<Rightarrow> findNodeById rest targetId)))"

fun treeReducer :: "TreeState \<Rightarrow> TreeAction \<Rightarrow> TreeState" where
  "treeReducer state (SET_TREE payload) = state\<lparr>nodes := payload, selectedNodeId := None\<rparr>"
| "treeReducer state (TOGGLE_EXPAND payload) =
     state\<lparr>nodes := toggleNodeExpand (nodes state) payload\<rparr>"
| "treeReducer state (RENAME_NODE i n) = state\<lparr>nodes := renameNode (nodes state) i n\<rparr>"
| "treeReducer state (DELETE_NODE payload) =
     state\<lparr>nodes := deleteNode (nodes state) payload,
           selectedNodeId := (if selectedNodeId state = Some payload then None
                              else selectedNodeId state)\<rparr>"
| "treeReducer state (SELECT_NODE payload) = state\<lparr>selectedNodeId := payload\<rparr>"
| "treeReducer state (ADD_NODE parentId nodeType) = state"

section \<open>Notions the properties are stated with\<close>

text \<open>The identifiers of a subtree and of a forest, in preorder.\<close>

fun ids_of :: "TreeNode \<Rightarrow> jsstring list" where
  "ids_of (TreeNode i n t d e cs) =
     i # (case cs of None \<Rightarrow> [] | Some c \<Rightarrow> concat (map ids_of c))"

definition forest_ids :: "TreeNode list \<Rightarrow> jsstring list" where
  "forest_ids f = concat (map ids_of f)"

text \<open>The proper descendants of a node.\<close>

fun descendants :: "TreeNode \<Rightarrow> TreeNode list" where
  "descendants (TreeNode i n t d e cs) =
     (case cs of None \<Rightarrow> [] | Some c \<Rightarrow> concat (map (\<lambda>x. x # descendants x) c))"

text \<open>
  What the specification says of \<open>ToggleExpand\<close>: the flag of a folder whose identifier
  is \<open>targetId\<close> is flipped, every other field of every node stays.
\<close>

fun flipMatching :: "jsstring \<Rightarrow> TreeNode \<Rightarrow> TreeNode" where
  "flipMatching targetId (TreeNode i n t d e cs) =
     TreeNode i n t d (if i = targetId \<and> t = Folder then Some (\<not> truthy e) else e)
       (map_option (map (flipMatching targetId)) cs)"

text \<open>A sequence of identifiers to run the parsers with: \<open>n\<close>, \<open>nx\<close>, \<open>nxx\<close>, \<dots>\<close>

definition unaryId :: "nat \<Rightarrow> jsstring" where
  "unaryId k = ascii ''n'' @ replicate k 0x78"

text \<open>A forest with pairwise distinct identifiers, and a state that selects its folder.\<close>

definition sampleFile :: TreeNode where
  "sampleFile = TreeNode (ascii ''2'') (ascii ''index.ts'') File 1 None None"

definition sampleFolder :: TreeNode where
  "sampleFolder = TreeNode (ascii ''1'') (ascii ''src'') Folder 0 (Some True) (Some [sampleFile])"

definition sampleForest :: "TreeNode list" where
  "sampleForest = [sampleFolder, TreeNode (ascii ''3'') (ascii ''README.md'') File 0 None None]"

definition sampleState :: TreeState where
  "sampleState = \<lparr>nodes = sampleForest, selectedNodeId = Some (ascii ''1'')\<rparr>"

text \<open>One of the four box-drawing glyphs occurs in the string.\<close>

definition hasBoxGlyph :: "jsstring \<Rightarrow> bool" where
  "hasBoxGlyph s =
     (glyphBranch \<in> set s \<or> glyphCorner \<in> set s \<or> glyphVertical \<in> set s
      \<or> glyphHorizontal \<in> set s)"

text \<open>An input with a bullet line and a line with a branch connector.\<close>

definition mixedInput :: jsstring where
  "mixedInput = ascii ''- docs/'' @ [nl] @ tokBranch @ ascii '' a.txt''"

text \<open>\<open>s.startsWith(pre)\<close> for a string \<open>pre\<close>.\<close>

definition startsWithStr :: "jsstring \<Rightarrow> jsstring \<Rightarrow> bool" where
  "startsWithStr pre s = (take (length pre) s = pre)"

text \<open>
  The sanitizer as the specification words it, with the class of content characters as
  a parameter: a line whose trimmed form starts with the comment marker is dropped,
  otherwise everything from the first marker on is removed; a line whose trimmed rest is
  empty or has no content character is dropped; the lines that survive are joined with
  newline. \<open>claimedContent\<close> is the class the specification names (alphanumeric, path
  separator, hyphen, period); \<open>actualContent\<close> adds the underscore.
\<close>

definition isAlphanumeric :: "jschar \<Rightarrow> bool" where
  "isAlphanumeric c =
     ((0x61 \<le> c \<and> c \<le> 0x7A) \<or> (0x41 \<le> c \<and> c \<le> 0x5A) \<or> (0x30 \<le> c \<and> c \<le> 0x39))"

definition claimedContent :: "jschar \<Rightarrow> bool" where
  "claimedContent c = (isAlphanumeric c \<or> c = slash \<or> c = dash \<or> c = 0x2E)"

definition actualContent :: "jschar \<Rightarrow> bool" where
  "actualContent c = (claimedContent c \<or> c = 0x5F)"

definition sanitizeLine :: "(jschar \<Rightarrow> bool) \<Rightarrow> jsstring \<Rightarrow> jsstring option" where
  "sanitizeLine content line =
     (if startsWith hash (trim line) then None
      else
        (let rest = takeWhile (\<lambda>c. c \<noteq> hash) line in
         if trim rest = [] then None
         else if list_ex content (trim rest) then Some rest
         else None))"

definition sanitizeBy :: "(jschar \<Rightarrow> bool) \<Rightarrow> jsstring \<Rightarrow> jsstring" where
  "sanitizeBy content raw = join_with nl (List.map_filter (sanitizeLine content) (split_on nl raw))"

text \<open>
  The depth invariant, as the specification states it and as \<open>lib/types\<close> documents the
  field ("Depth level in the tree hierarchy (0 for root)"): every top-level node has
  depth 0 and every child has the depth of its parent plus one.
\<close>

fun depthExact :: "TreeNode \<Rightarrow> bool" where
  "depthExact (TreeNode i n t d e cs) =
     (case cs of None \<Rightarrow> True | Some c \<Rightarrow> list_all (\<lambda>x. depth x = d + 1 \<and> depthExact x) c)"

definition depthInvariant :: "TreeNode list \<Rightarrow> bool" where
  "depthInvariant f = list_all (\<lambda>r. depth r = 0 \<and> depthExact r) f"

text \<open>
  \<open>depthRel R\<close>: along every parent/child edge of the subtree, the depths of parent and
  child are related by \<open>R\<close>.
\<close>

fun depthRel :: "(int \<Rightarrow> int \<Rightarrow> bool) \<Rightarrow> TreeNode \<Rightarrow> bool" where
  "depthRel R (TreeNode i n t d e cs) =
     (case cs of None \<Rightarrow> True | Some c \<Rightarrow> list_all (\<lambda>x. R d (depth x) \<and> depthRel R x) c)"

abbreviation depthMono :: "TreeNode \<Rightarrow> bool" where
  "depthMono \<equiv> depthRel (\<le>)"

abbreviation depthStrict :: "TreeNode \<Rightarrow> bool" where
  "depthStrict \<equiv> depthRel (<)"

text \<open>
  Two weaker orderings of the depths: no depth is negative and no child has a smaller
  depth than its parent; every child has a greater depth than its parent.
\<close>

definition depthOrdered :: "TreeNode list \<Rightarrow> bool" where
  "depthOrdered f = list_all (\<lambda>r. 0 \<le> depth r \<and> depthMono r) f"

definition depthIncreasing :: "TreeNode list \<Rightarrow> bool" where
  "depthIncreasing f = list_all depthStrict f"

text \<open>
  Two Markdown inputs: a child indented by four spaces below its folder, with a second
  root; and a single file indented by two spaces.
\<close>

definition fourSpaceInput :: jsstring where
  "fourSpaceInput = ascii (''- a/'' @ [CHR 0x0A] @ ''    - b.txt'' @ [CHR 0x0A] @ ''- c.txt'')"

definition indentedRootInput :: jsstring where
  "indentedRootInput = ascii ''  - a.txt''"

text \<open>A bare root folder and a file two continuation blocks deep.\<close>

definition skippedLevelInput :: jsstring where
  "skippedLevelInput = ascii ''a/'' @ [nl] @ tokVertical @ tokVertical @ tokCorner @ ascii '' b''"

text \<open>
  The invariant of the two loops, for a bound \<open>b\<close> of a node's depth by its stack key: the
  forest is ordered, and every linked stack entry refers to a node of the forest whose
  depth is at most \<open>b\<close> of the entry's key.
\<close>

definition entryOk :: "(int \<Rightarrow> int) \<Rightarrow> TreeNode list \<Rightarrow> ref \<times> int \<Rightarrow> bool" where
  "entryOk b f e =
     (case fst e of None \<Rightarrow> True
      | Some q \<Rightarrow> (\<exists>nd. node_at f q = Some nd \<and> depth nd \<le> b (snd e)))"

definition inv :: "(int \<Rightarrow> int) \<Rightarrow> parse_state \<Rightarrow> bool" where
  "inv b st = (depthOrdered (root st) \<and> list_all (entryOk b (root st)) (stack st))"

text \<open>
  The invariant of the loop of the ASCII parser. Either (\<open>invA\<close>) every child in the
  forest is deeper than its parent and every linked stack entry refers to a node whose
  depth is at most the entry's level; or (\<open>invB\<close>) the first line was the bare root
  folder: it is the only root, its stack entry with level \<open>-1\<close> stays at the bottom of the
  stack, its children are at least as deep as it is, and below them every child is
  deeper than its parent.
\<close>

definition strictBelow :: "TreeNode \<Rightarrow> bool" where
  "strictBelow r =
     (case children r of None \<Rightarrow> True
      | Some c \<Rightarrow> list_all (\<lambda>y. depth r \<le> depth y \<and> depthStrict y) c)"

definition invA :: "parse_state \<Rightarrow> bool" where
  "invA st = (list_all depthStrict (root st) \<and> list_all (entryOk (\<lambda>k. k) (root st)) (stack st))"

definition invB :: "parse_state \<Rightarrow> bool" where
  "invB st =
     ((\<exists>r. root st = [r] \<and> node_type r = Folder \<and> depth r \<le> 0 \<and> strictBelow r)
      \<and> stack st \<noteq> [] \<and> last (stack st) = (Some [0], - 1)
      \<and> list_all (\<lambda>e. 0 \<le> snd e \<and> entryOk (\<lambda>k. k) (root st) e) (butlast (stack st)))"

section \<open>The two examples of the specification\<close>

text \<open>
  C1. The Markdown input of two lines, \<open>- src/\<close> and the child \<open>- index.ts\<close> indented by two
  spaces, parses to one root folder \<open>src\<close> with one file child \<open>index.ts\<close>. The child's
  \<open>depth\<close> is 2, not 1, its level in the hierarchy: the loop gives it
  \<open>floor(2 / 2) = 1\<close>, and the normalization of a single root folder adds one.
\<close>

theorem markdown_example_depth:
  "parseDirectoryStructure gen (ascii (''- src/'' @ [CHR 0x0A] @ ''  - index.ts'')) =
     Success [TreeNode (gen 0) (ascii ''src'') Folder 0 (Some True)
                (Some [TreeNode (gen 1) (ascii ''index.ts'') File 2 (Some True) None])]"
  by code_simp

text \<open>
  C4. The box-drawing input \<open>project/\<close>, branch \<open>src/\<close>, below it corner \<open>index.ts\<close>, corner
  \<open>package.json\<close> parses to one root folder \<open>project\<close> with exactly two children, in
  order: the folder \<open>src\<close> with the one file child \<open>index.ts\<close>, and the file
  \<open>package.json\<close>.
\<close>

theorem ascii_example:
  "parseDirectoryStructure gen
     (ascii ''project/'' @ [nl]
      @ tokBranch @ ascii '' src/'' @ [nl]
      @ tokVertical @ tokCorner @ ascii '' index.ts'' @ [nl]
      @ tokCorner @ ascii '' package.json'') =
     Success [TreeNode (gen 0) (ascii ''project'') Folder 0 (Some True)
                (Some [TreeNode (gen 1) (ascii ''src'') Folder 1 (Some True)
                         (Some [TreeNode (gen 2) (ascii ''index.ts'') File 2 (Some True) None]),
                       TreeNode (gen 3) (ascii ''package.json'') File 1 (Some True) None])]"
  by code_simp

section \<open>Strings, the sanitizer and the detector\<close>

lemma trim_Nil_iff: "trim s = [] \<longleftrightarrow> (\<forall>c\<in>set s. isWhiteSpace c)"
proof
  assume "trim s = []"
  then have a: "\<forall>c\<in>set (dropWhile isWhiteSpace s). isWhiteSpace c"
    by (simp add: trim_def)
  have "dropWhile isWhiteSpace s = []"
  proof (rule ccontr)
    assume n: "dropWhile isWhiteSpace s \<noteq> []"
    then have "\<not> isWhiteSpace (hd (dropWhile isWhiteSpace s))" by (rule hd_dropWhile)
    moreover have "hd (dropWhile isWhiteSpace s) \<in> set (dropWhile isWhiteSpace s)"
      using n by simp
    ultimately show False using a by blast
  qed
  then show "\<forall>c\<in>set s. isWhiteSpace c" by simp
next
  assume "\<forall>c\<in>set s. isWhiteSpace c"
  then show "trim s = []" by (auto simp: trim_def dest: set_dropWhileD)
qed

lemma split_on_not_Nil: "split_on d s \<noteq> []"
  by (induction s) (auto split: list.splits)

lemma split_on_set: "l \<in> set (split_on d s) \<Longrightarrow> set l \<subseteq> set s"
proof (induction s arbitrary: l)
  case Nil then show ?case by simp
next
  case (Cons c cs)
  show ?case
  proof (cases "c = d")
    case True
    with Cons show ?thesis by auto
  next
    case False
    obtain h t where ht: "split_on d cs = h # t"
      using split_on_not_Nil [of d cs] by (cases "split_on d cs") auto
    with False Cons.prems have "l = c # h \<or> l \<in> set t" by simp
    then show ?thesis
    proof
      assume "l = c # h"
      moreover have "set h \<subseteq> set cs" using Cons.IH [of h] ht by simp
      ultimately show ?thesis by auto
    next
      assume "l \<in> set t"
      then have "set l \<subseteq> set cs" using Cons.IH [of l] ht by simp
      then show ?thesis by auto
    qed
  qed
qed

lemma split_on_covers: "c \<in> set s \<Longrightarrow> c \<noteq> d \<Longrightarrow> \<exists>l\<in>set (split_on d s). c \<in> set l"
proof (induction s)
  case Nil then show ?case by simp
next
  case (Cons x xs)
  obtain h t where ht: "split_on d xs = h # t"
    using split_on_not_Nil [of d xs] by (cases "split_on d xs") auto
  show ?case
  proof (cases "c \<in> set xs")
    case True
    with Cons obtain l where l: "l \<in> set (split_on d xs)" "c \<in> set l" by blast
    show ?thesis
    proof (cases "x = d")
      case True with l show ?thesis by auto
    next
      case False
      with l ht show ?thesis by auto
    qed
  next
    case False
    with Cons.prems have "c = x" by simp
    with Cons.prems ht show ?thesis by auto
  qed
qed

lemma hash_not_ws: "\<not> isWhiteSpace hash"
  by (simp add: isWhiteSpace_def isLineTerminator_def hash_def)

lemma indexOf_None: "c \<notin> set s \<Longrightarrow> indexOf c s = None"
  by (induction s) auto

lemma blank_line:
  assumes "\<forall>c\<in>set l. isWhiteSpace c"
  shows "stripComment l = l" and "\<not> keepLine l"
proof -
  have t: "trim l = []" using assms by (simp add: trim_Nil_iff)
  have "hash \<notin> set l" using assms hash_not_ws by blast
  then show "stripComment l = l"
    by (simp add: stripComment_def t startsWith_def indexOf_None)
  show "\<not> keepLine l" by (simp add: keepLine_def t)
qed

lemma sanitize_blank:
  assumes "\<forall>c\<in>set s. isWhiteSpace c"
  shows "sanitizeInput s = []"
proof -
  have "\<And>l. l \<in> set (split_on nl s) \<Longrightarrow> \<forall>c\<in>set l. isWhiteSpace c"
    using assms split_on_set by blast
  then have "filter keepLine (map stripComment (split_on nl s)) = []"
    by (auto simp: filter_empty_conv blank_line)
  then show ?thesis by (simp add: sanitizeInput_def)
qed

lemma nl_ws: "isWhiteSpace nl"
  by (simp add: isWhiteSpace_def isLineTerminator_def nl_def)

lemma in_dropWhile: "x \<in> set xs \<Longrightarrow> \<not> P x \<Longrightarrow> x \<in> set (dropWhile P xs)"
  by (induction xs) auto

lemma in_trim: "c \<in> set s \<Longrightarrow> \<not> isWhiteSpace c \<Longrightarrow> c \<in> set (trim s)"
  by (simp add: trim_def in_dropWhile)

lemma detect_known:
  assumes "trim s \<noteq> []"
  shows "detectFormat s \<noteq> Unknown"
proof -
  from assms obtain c where c: "c \<in> set (trim s)" "\<not> isWhiteSpace c"
    using trim_Nil_iff in_trim by blast
  then have "c \<noteq> nl" using nl_ws by auto
  with c obtain l where l: "l \<in> set (split_on nl (trim s))" "c \<in> set l"
    using split_on_covers by blast
  then have "trim l \<noteq> []" using c trim_Nil_iff by blast
  with l have "filter (\<lambda>line. trim line \<noteq> []) (split_on nl (trim s)) \<noteq> []"
    by (auto simp: filter_empty_conv)
  then show ?thesis by (simp add: detectFormat_def Let_def)
qed

lemma glyph_not_ws:
  "\<not> isWhiteSpace glyphBranch" "\<not> isWhiteSpace glyphCorner"
  "\<not> isWhiteSpace glyphVertical" "\<not> isWhiteSpace glyphHorizontal"
  by (simp_all add: isWhiteSpace_def isLineTerminator_def glyphBranch_def glyphCorner_def
        glyphVertical_def glyphHorizontal_def)

lemma detect_glyph: "hasBoxGlyph s \<Longrightarrow> detectFormat s = Ascii"
  by (auto simp: hasBoxGlyph_def detectFormat_def asciiChars_def)

lemma glyph_trim: "hasBoxGlyph s \<Longrightarrow> trim s \<noteq> []"
  using glyph_not_ws by (auto simp: hasBoxGlyph_def trim_Nil_iff)

lemma hasBoxGlyph_Nil: "\<not> hasBoxGlyph []"
  by (simp add: hasBoxGlyph_def)

text \<open>
  C3. A string with a box-drawing glyph anywhere is classified \<open>Ascii\<close>, and when the
  sanitized input has one, \<open>parseDirectoryStructure\<close> returns what \<open>parseAscii\<close> returns on
  the sanitized input; no condition on bullet markers is involved.
\<close>

theorem glyph_routes_to_ascii:
  "(hasBoxGlyph s \<longrightarrow> detectFormat s = Ascii)
   \<and> (hasBoxGlyph (sanitizeInput input) \<longrightarrow>
        parseDirectoryStructure gen input = parseAscii gen (sanitizeInput input))"
proof (intro conjI impI)
  assume "hasBoxGlyph s"
  then show "detectFormat s = Ascii" by (rule detect_glyph)
next
  assume g: "hasBoxGlyph (sanitizeInput input)"
  have "trim input \<noteq> []"
  proof
    assume "trim input = []"
    then have "sanitizeInput input = []" by (simp add: trim_Nil_iff sanitize_blank)
    with g show False by (simp add: hasBoxGlyph_Nil)
  qed
  moreover then have "input \<noteq> []" by (auto simp: trim_def)
  moreover have "trim (sanitizeInput input) \<noteq> []" using g by (rule glyph_trim)
  moreover have "detectFormat (sanitizeInput input) = Ascii" using g by (rule detect_glyph)
  ultimately show "parseDirectoryStructure gen input = parseAscii gen (sanitizeInput input)"
    by (simp add: parseDirectoryStructure_def)
qed

theorem glyph_routes_to_ascii_witness:
  "startsWith dash mixedInput
   \<and> hasBoxGlyph (sanitizeInput mixedInput)
   \<and> detectFormat (sanitizeInput mixedInput) = Ascii
   \<and> parseDirectoryStructure unaryId mixedInput = parseAscii unaryId (sanitizeInput mixedInput)"
proof -
  have b: "startsWith dash mixedInput" by code_simp
  have g: "hasBoxGlyph (sanitizeInput mixedInput)" by code_simp
  from glyph_routes_to_ascii [of "sanitizeInput mixedInput" mixedInput unaryId] g
  have "detectFormat (sanitizeInput mixedInput) = Ascii"
    and "parseDirectoryStructure unaryId mixedInput = parseAscii unaryId (sanitizeInput mixedInput)"
    by blast+
  with b g show ?thesis by blast
qed

lemma finish_reason: "finish st = Failure e \<Longrightarrow> e = noStructure"
  by (simp add: finish_def split: if_splits)

lemma reasons_not_unable:
  "\<not> startsWithStr (ascii ''Unable to detect input format'') inputEmpty"
  "\<not> startsWithStr (ascii ''Unable to detect input format'') onlyComments"
  "\<not> startsWithStr (ascii ''Unable to detect input format'') noStructure"
  by code_simp+

text \<open>
  C10. On a string whose trimmed form is not empty the detector never answers \<open>Unknown\<close>,
  and no rejection of \<open>parseDirectoryStructure\<close> has a reason that begins with
  "Unable to detect input format".
\<close>

theorem unknown_format_unreachable:
  "(trim s \<noteq> [] \<longrightarrow> detectFormat s \<noteq> Unknown)
   \<and> (parseDirectoryStructure gen input = Failure e \<longrightarrow>
        \<not> startsWithStr (ascii ''Unable to detect input format'') e)"
proof (intro conjI impI)
  assume "trim s \<noteq> []"
  then show "detectFormat s \<noteq> Unknown" by (rule detect_known)
next
  assume f: "parseDirectoryStructure gen input = Failure e"
  have "e = inputEmpty \<or> e = onlyComments \<or> e = noStructure"
  proof (cases "input = [] \<or> trim input = []")
    case True
    with f show ?thesis by (simp add: parseDirectoryStructure_def)
  next
    case False
    note ne = this
    show ?thesis
    proof (cases "trim (sanitizeInput input) = []")
      case True
      with f ne show ?thesis by (simp add: parseDirectoryStructure_def)
    next
      case False
      then have "detectFormat (sanitizeInput input) \<noteq> Unknown" by (rule detect_known)
      with f ne False show ?thesis
        by (auto simp: parseDirectoryStructure_def Let_def parseMarkdown_def parseAscii_def
              split: if_splits dest: finish_reason)
    qed
  qed
  then show "\<not> startsWithStr (ascii ''Unable to detect input format'') e"
    using reasons_not_unable by blast
qed

theorem unknown_format_unreachable_witness:
  "trim (ascii ''a'') \<noteq> [] \<and> detectFormat (ascii ''a'') \<noteq> Unknown
   \<and> parseDirectoryStructure unaryId (ascii ''#'') = Failure onlyComments
   \<and> \<not> startsWithStr (ascii ''Unable to detect input format'') onlyComments"
proof -
  have t: "trim (ascii ''a'') \<noteq> []" by code_simp
  have p: "parseDirectoryStructure unaryId (ascii ''#'') = Failure onlyComments" by code_simp
  from unknown_format_unreachable [of "ascii ''a''" unaryId "ascii ''#''" onlyComments] t p
  have "detectFormat (ascii ''a'') \<noteq> Unknown"
    and "\<not> startsWithStr (ascii ''Unable to detect input format'') onlyComments"
    by blast+
  with t p show ?thesis by blast
qed

lemma fold_skip: "(\<And>x. x \<in> set xs \<Longrightarrow> f x = id) \<Longrightarrow> fold f xs st = st"
  by (induction xs arbitrary: st) auto

lemma markdown_blank:
  assumes "trim input = []"
  shows "parseMarkdown gen input = Failure noStructure"
proof -
  have "\<And>l. l \<in> set (split_on nl input) \<Longrightarrow> trim l = []"
    using assms split_on_set unfolding trim_Nil_iff by blast
  then have "\<And>l. l \<in> set (split_on nl input) \<Longrightarrow> markdownLine gen l = id"
    by (auto simp: markdownLine_def)
  then have "fold (markdownLine gen) (split_on nl input) initial = initial"
    by (rule fold_skip)
  then show ?thesis by (simp add: parseMarkdown_def finish_def initial_def)
qed

text \<open>
  C7, as stated, fails for \<open>parseMarkdown\<close>: on the empty string its reason is "No valid
  directory structure found in input", which does not contain "empty".
\<close>

theorem empty_input_reason_counterexample:
  "parseMarkdown unaryId [] = Failure noStructure
   \<and> \<not> includesStr noStructure (ascii ''empty'')"
  by code_simp

text \<open>
  C7, amended. On an empty or whole-whitespace input \<open>parseMarkdown\<close> rejects with the
  reason "No valid directory structure found in input", and \<open>parseDirectoryStructure\<close>
  rejects with "Input is empty. Please provide a directory structure.", which
  mentions emptiness.
\<close>

theorem empty_input_reasons:
  "trim input = [] \<longrightarrow>
     parseMarkdown gen input = Failure noStructure
     \<and> parseDirectoryStructure gen input = Failure inputEmpty
     \<and> includesStr inputEmpty (ascii ''empty'')"
proof
  assume t: "trim input = []"
  have "includesStr inputEmpty (ascii ''empty'')" by code_simp
  with t show "parseMarkdown gen input = Failure noStructure
     \<and> parseDirectoryStructure gen input = Failure inputEmpty
     \<and> includesStr inputEmpty (ascii ''empty'')"
    by (simp add: markdown_blank parseDirectoryStructure_def)
qed

theorem empty_input_reasons_witness:
  "trim (ascii ''  '') = []
   \<and> parseMarkdown unaryId (ascii ''  '') = Failure noStructure
   \<and> parseDirectoryStructure unaryId (ascii ''  '') = Failure inputEmpty
   \<and> trim ([] :: jsstring) = []
   \<and> parseMarkdown unaryId [] = Failure noStructure
   \<and> parseDirectoryStructure unaryId [] = Failure inputEmpty"
proof -
  have a: "trim (ascii ''  '') = []" by code_simp
  have b: "trim ([] :: jsstring) = []" by code_simp
  from empty_input_reasons [of "ascii ''  ''" unaryId] a
       empty_input_reasons [of "[]" unaryId] b
  show ?thesis by blast
qed

lemma indexOf_takeWhile:
  "(case indexOf c l of None \<Rightarrow> l | Some i \<Rightarrow> substring l 0 i) = takeWhile (\<lambda>x. x \<noteq> c) l"
  by (induction l) (auto simp: substring_def split: option.splits)

lemma content_eq: "isContentChar = actualContent"
  by (rule ext) (auto simp: isContentChar_def actualContent_def claimedContent_def
       isAlphanumeric_def slash_def dash_def)

lemma sanitizeLine_code:
  "sanitizeLine actualContent l = (if keepLine (stripComment l) then Some (stripComment l) else None)"
proof (cases "startsWith hash (trim l)")
  case True
  then show ?thesis
    by (simp add: sanitizeLine_def stripComment_def keepLine_def trim_def)
next
  case False
  then have "stripComment l = takeWhile (\<lambda>x. x \<noteq> hash) l"
    by (simp add: stripComment_def indexOf_takeWhile)
  with False show ?thesis
    by (simp add: sanitizeLine_def keepLine_def Let_def content_eq)
qed

lemma map_filter_lines:
  "List.map_filter (sanitizeLine actualContent) ls = filter keepLine (map stripComment ls)"
  by (induction ls) (simp_all add: sanitizeLine_code)

text \<open>
  C8, as stated, fails on the line \<open>_\<close>: it has no alphanumeric character, path
  separator, hyphen or period, and the sanitizer keeps it.
\<close>

theorem sanitize_underscore_counterexample:
  "sanitizeInput (ascii ''_'') = ascii ''_'' \<and> sanitizeBy claimedContent (ascii ''_'') = []"
  by code_simp

text \<open>
  C8, amended. \<open>sanitizeInput\<close> is the sanitizer of the specification with the content
  class: ASCII letter, digit, underscore, period, hyphen or slash. It is a total
  function.
\<close>

theorem sanitize_by_lines:
  "sanitizeInput raw = sanitizeBy actualContent raw"
  by (simp add: sanitizeInput_def sanitizeBy_def map_filter_lines)

section \<open>The depths of a parsed forest\<close>

lemma depthRel_children:
  "depthRel R x =
     (case children x of None \<Rightarrow> True
      | Some c \<Rightarrow> list_all (\<lambda>y. R (depth x) (depth y) \<and> depthRel R y) c)"
  by (cases x) (simp split: option.splits)

lemmas depthMono_children = depthRel_children [of "(\<le>)"]

lemma list_all_update: "list_all P f \<Longrightarrow> P x \<Longrightarrow> list_all P (f[i := x])"
  using set_update_subset_insert [of f i x] by (auto simp: list_all_iff)

lemma set_children_sel [simp]:
  "depth (set_children x cs) = depth x" "children (set_children x cs) = cs"
  "node_id (set_children x cs) = node_id x"
  by (simp_all add: set_children_def)

lemma node_at_append: "node_at f q = Some nd \<Longrightarrow> node_at (f @ [x]) q = Some nd"
  by (cases q) (auto simp: nth_append split: if_splits)

lemma node_at_push:
  "node_at f q = Some nd \<Longrightarrow> \<exists>nd'. node_at (push_child p n f) q = Some nd' \<and> depth nd' = depth nd"
proof (induction q arbitrary: f p nd)
  case Nil then show ?case by simp
next
  case (Cons j q')
  from Cons.prems have j: "j < length f" by (simp split: if_splits)
  show ?case
  proof (cases p)
    case Nil
    with Cons.prems show ?thesis by simp
  next
    case (Cons i p')
    note p = this
    show ?thesis
    proof (cases "i < length f")
      case False
      with p Cons.prems show ?thesis by simp
    next
      case True
      note i = this
      show ?thesis
      proof (cases "children (f ! i)")
        case None
        with p i Cons.prems show ?thesis by simp
      next
        case (Some cs)
        let ?cs' = "if p' = [] then cs @ [n] else push_child p' n cs"
        have f': "push_child p n f = f[i := set_children (f ! i) (Some ?cs')]"
          using p i Some by simp
        show ?thesis
        proof (cases "j = i")
          case False
          then have "node_at (push_child p n f) (j # q') = node_at f (j # q')"
            unfolding f' using j by simp
          with Cons.prems show ?thesis by simp
        next
          case True
          note ji = this
          show ?thesis
          proof (cases "q' = []")
            case True
            with Cons.prems ji i have "nd = f ! i" by simp
            then show ?thesis unfolding f' using True ji i by simp
          next
            case False
            with Cons.prems ji i Some have c: "node_at cs q' = Some nd" by simp
            have "\<exists>nd'. node_at ?cs' q' = Some nd' \<and> depth nd' = depth nd"
            proof (cases "p' = []")
              case True
              then show ?thesis using node_at_append [OF c] by simp
            next
              case False
              then show ?thesis using Cons.IH [OF c] by simp
            qed
            then show ?thesis unfolding f' using False ji i by simp
          qed
        qed
      qed
    qed
  qed
qed

lemma node_at_new:
  "node_at f p = Some parent \<Longrightarrow> children parent = Some cs
   \<Longrightarrow> node_at (push_child p n f) (p @ [length cs]) = Some n"
proof (induction p arbitrary: f)
  case Nil then show ?case by simp
next
  case (Cons i p')
  from Cons.prems have i: "i < length f" by (simp split: if_splits)
  show ?case
  proof (cases "p' = []")
    case True
    with Cons.prems i have "parent = f ! i" by simp
    with Cons.prems True i show ?thesis by simp
  next
    case False
    with Cons.prems i obtain c0 where c0: "children (f ! i) = Some c0" "node_at c0 p' = Some parent"
      by (auto split: option.splits)
    have "node_at (push_child p' n c0) (p' @ [length cs]) = Some n"
      using Cons.IH [OF c0(2) Cons.prems(2)] .
    then show ?thesis using False i c0 by simp
  qed
qed

lemma push_child_rel:
  "list_all (depthRel R) f \<Longrightarrow> node_at f p = Some parent \<Longrightarrow> R (depth parent) (depth n)
   \<Longrightarrow> depthRel R n
   \<Longrightarrow> list_all (depthRel R) (push_child p n f) \<and> map depth (push_child p n f) = map depth f"
proof (induction p arbitrary: f)
  case Nil then show ?case by simp
next
  case (Cons i p')
  from Cons.prems have i: "i < length f" by (simp split: if_splits)
  show ?case
  proof (cases "children (f ! i)")
    case None
    with Cons.prems i show ?thesis by simp
  next
    case (Some c0)
    let ?cs' = "if p' = [] then c0 @ [n] else push_child p' n c0"
    let ?x' = "set_children (f ! i) (Some ?cs')"
    have f': "push_child (i # p') n f = f[i := ?x']"
      using i Some by simp
    have mi: "depthRel R (f ! i)" using Cons.prems(1) i by (simp add: list_all_length)
    then have c0m: "list_all (\<lambda>y. R (depth (f ! i)) (depth y) \<and> depthRel R y) c0"
      using Some by (simp add: depthRel_children)
    have "list_all (\<lambda>y. R (depth (f ! i)) (depth y) \<and> depthRel R y) ?cs'"
    proof (cases "p' = []")
      case True
      with Cons.prems i have "parent = f ! i" by simp
      with True c0m Cons.prems(3,4) show ?thesis by simp
    next
      case False
      with Cons.prems i Some have par: "node_at c0 p' = Some parent" by simp
      have "list_all (depthRel R) c0" using c0m by (simp add: list_all_iff)
      from Cons.IH [OF this par Cons.prems(3,4)]
      have a: "list_all (depthRel R) (push_child p' n c0)"
        and b: "map depth (push_child p' n c0) = map depth c0" by simp_all
      have "list_all (\<lambda>y. R (depth (f ! i)) (depth y)) c0" using c0m by (simp add: list_all_iff)
      then have "list_all (\<lambda>d. R (depth (f ! i)) d) (map depth c0)" by (simp add: list_all_iff)
      then have "list_all (\<lambda>d. R (depth (f ! i)) d) (map depth (push_child p' n c0))"
        using b by simp
      then have "list_all (\<lambda>y. R (depth (f ! i)) (depth y)) (push_child p' n c0)"
        by (simp add: list_all_iff)
      with a False show ?thesis by (simp add: list_all_iff)
    qed
    then have mx: "depthRel R ?x'" by (simp add: depthRel_children)
    have "list_all (depthRel R) (f[i := ?x'])"
      using Cons.prems(1) mx by (rule list_all_update)
    moreover have "map depth (f[i := ?x']) = map depth f"
      using i by (simp add: map_update list_update_same_conv)
    ultimately show ?thesis unfolding f' by simp
  qed
qed

lemmas push_child_mono = push_child_rel [of "(\<le>)"]

lemma depthOrdered_alt:
  "depthOrdered f \<longleftrightarrow> list_all (\<lambda>d. 0 \<le> d) (map depth f) \<and> list_all depthMono f"
  by (auto simp: depthOrdered_def list_all_iff)

lemma entryOk_None [simp]: "entryOk b f (None, k)"
  by (simp add: entryOk_def)

lemma entryOk_append: "entryOk b f e \<Longrightarrow> entryOk b (f @ [x]) e"
  by (auto simp: entryOk_def split: option.splits dest: node_at_append)

lemma entryOk_push: "entryOk b f e \<Longrightarrow> entryOk b (push_child p n f) e"
proof (cases "fst e")
  case None
  then show ?thesis by (simp add: entryOk_def)
next
  case (Some q)
  assume "entryOk b f e"
  with Some obtain nd where nd: "node_at f q = Some nd" "depth nd \<le> b (snd e)"
    by (auto simp: entryOk_def)
  from node_at_push [OF nd(1), of p n] obtain nd'
    where "node_at (push_child p n f) q = Some nd'" "depth nd' = depth nd" by blast
  with nd(2) Some show ?thesis by (auto simp: entryOk_def)
qed

lemma inv_created [simp]: "inv b (st\<lparr>created := c\<rparr>) = inv b st"
  by (simp add: inv_def)

lemma attach_cases:
  fixes n key isFolder st
  defines "stk \<equiv> dropWhile (\<lambda>e. snd e \<ge> key) (stack st)"
  obtains
    (toplevel) "stk = []"
      "attach n key isFolder st =
         st\<lparr>root := root st @ [n],
            stack := (if isFolder then [(Some [length (root st)], key)] else [])\<rparr>"
  | (unlinked) "stk \<noteq> []"
      "attach n key isFolder st = st\<lparr>stack := (if isFolder then (None, key) # stk else stk)\<rparr>"
  | (child) p k0 rest parent cs where "stk = (Some p, k0) # rest" "k0 < key"
      "node_at (root st) p = Some parent" "children parent = Some cs"
      "attach n key isFolder st =
         st\<lparr>root := push_child p n (root st),
            stack := (if isFolder then (Some (p @ [length cs]), key) # stk else stk)\<rparr>"
proof (cases stk)
  case Nil
  then have "dropWhile (\<lambda>e. snd e \<ge> key) (stack st) = []" by (simp add: stk_def)
  then have "attach n key isFolder st =
      st\<lparr>root := root st @ [n],
         stack := (if isFolder then [(Some [length (root st)], key)] else [])\<rparr>"
    unfolding attach_def Let_def by (simp only: list.case)
  with Nil show ?thesis by (rule toplevel)
next
  case (Cons top rest)
  obtain r k0 where top: "top = (r, k0)" by (cases top)
  have unf: "dropWhile (\<lambda>e. snd e \<ge> key) (stack st) = (r, k0) # rest"
    using Cons top by (simp add: stk_def)
  have "\<not> key \<le> snd (hd (dropWhile (\<lambda>e. snd e \<ge> key) (stack st)))"
    by (rule hd_dropWhile) (simp add: unf)
  then have k0: "k0 < key" by (simp add: unf)
  have ne: "stk \<noteq> []" using Cons by simp
  show ?thesis
  proof (cases r)
    case None
    have "attach n key isFolder st =
        st\<lparr>stack := (if isFolder then (None, key) # stk else stk)\<rparr>"
      unfolding attach_def Let_def stk_def unf None by simp
    with ne show ?thesis by (rule unlinked)
  next
    case (Some p)
    note p = this
    show ?thesis
    proof (cases "node_at (root st) p")
      case None
      have "attach n key isFolder st =
          st\<lparr>stack := (if isFolder then (None, key) # stk else stk)\<rparr>"
        unfolding attach_def Let_def stk_def unf p using None by simp
      with ne show ?thesis by (rule unlinked)
    next
      case (Some parent)
      note parent = this
      show ?thesis
      proof (cases "children parent")
        case None
        have "attach n key isFolder st =
            st\<lparr>stack := (if isFolder then (None, key) # stk else stk)\<rparr>"
          unfolding attach_def Let_def stk_def unf p using parent None by simp
        with ne show ?thesis by (rule unlinked)
      next
        case (Some cs)
        have "attach n key isFolder st =
            st\<lparr>root := push_child p n (root st),
               stack := (if isFolder then (Some (p @ [length cs]), key) # stk else stk)\<rparr>"
          unfolding attach_def Let_def stk_def unf p using parent Some by simp
        with Cons top p k0 parent Some show ?thesis by (intro child) simp_all
      qed
    qed
  qed
qed

lemma attach_inv:
  assumes i: "inv b st"
    and n0: "0 \<le> depth n" and nm: "depthMono n"
    and lo: "\<And>k. k < key \<Longrightarrow> b k \<le> depth n"
    and hi: "depth n \<le> b key"
  shows "inv b (attach n key isFolder st)"
proof -
  let ?stk = "dropWhile (\<lambda>e. snd e \<ge> key) (stack st)"
  from i have ord: "depthOrdered (root st)"
    and all: "list_all (entryOk b (root st)) (stack st)" by (simp_all add: inv_def)
  have stk: "list_all (entryOk b (root st)) ?stk"
    using all by (auto simp: list_all_iff dest: set_dropWhileD)
  show ?thesis
  proof (cases rule: attach_cases [where n = n and key = key and isFolder = isFolder and st = st])
    case toplevel
    have "depthOrdered (root st @ [n])"
      using ord n0 nm by (simp add: depthOrdered_def)
    moreover have "entryOk b (root st @ [n]) (Some [length (root st)], key)"
      using hi by (simp add: entryOk_def)
    ultimately show ?thesis unfolding toplevel(2) by (simp add: inv_def)
  next
    case unlinked
    show ?thesis unfolding unlinked(2) using ord stk by (simp add: inv_def)
  next
    case (child p k0 rest parent cs)
    let ?root' = "push_child p n (root st)"
    from stk child(1,3) have "depth parent \<le> b k0" by (auto simp: entryOk_def)
    then have le: "depth parent \<le> depth n" using lo [OF child(2)] by simp
    from ord have "list_all depthMono (root st)" by (simp add: depthOrdered_alt)
    from push_child_mono [OF this child(3) le nm]
    have "depthOrdered ?root'" using ord by (simp add: depthOrdered_alt)
    moreover have "list_all (entryOk b ?root') ?stk"
      using stk by (auto simp: list_all_iff intro: entryOk_push)
    moreover have "entryOk b ?root' (Some (p @ [length cs]), key)"
      using node_at_new [OF child(3,4), of n] hi by (simp add: entryOk_def)
    ultimately show ?thesis unfolding child(5) by (simp add: inv_def)
  qed
qed

lemma newNode_props:
  "depth (newNode gen nm d st) = d" "depthMono (newNode gen nm d st)"
  by (simp_all add: newNode_def Let_def)

lemma addNode_inv:
  assumes "inv b st" "0 \<le> d" "\<And>k. k < key \<Longrightarrow> b k \<le> d" "d \<le> b key"
  shows "inv b (addNode gen nm d key st)"
  unfolding addNode_def
  by (rule attach_inv) (use assms in \<open>simp_all add: newNode_props\<close>)

lemma markdownLine_inv:
  assumes "inv (\<lambda>k. k div 2) st"
  shows "inv (\<lambda>k. k div 2) (markdownLine gen line st)"
proof -
  have add: "\<And>g nm. inv (\<lambda>k. k div 2)
      (addNode gen nm (int (length (g :: jsstring)) div 2) (int (length g)) st)"
    by (rule addNode_inv [OF assms]) (auto intro: zdiv_mono1)
  show ?thesis
    using assms add by (auto simp: markdownLine_def Let_def split: option.splits)
qed

lemma scanPrefix_level:
  "scanPrefix cl pos lv fd = (cl', lv', fd') \<Longrightarrow> lv \<le> lv'"
proof (induction cl pos lv fd rule: scanPrefix.induct)
  case (1 cleanLine pos level foundTreeChar)
  show ?case
  proof (cases "pos < length cleanLine")
    case False
    with "1.prems" show ?thesis by (simp add: scanPrefix.simps [of cleanLine])
  next
    case True
    note lt = this
    consider (branch) "substring cleanLine pos (pos + 3) = tokBranch"
      | (corner) "substring cleanLine pos (pos + 3) \<noteq> tokBranch"
          "substring cleanLine pos (pos + 3) = tokCorner"
      | (vertical) "substring cleanLine pos (pos + 3) \<noteq> tokBranch"
          "substring cleanLine pos (pos + 3) \<noteq> tokCorner"
          "substring cleanLine pos (pos + 4) = tokVertical"
      | (blank) "substring cleanLine pos (pos + 3) \<noteq> tokBranch"
          "substring cleanLine pos (pos + 3) \<noteq> tokCorner"
          "substring cleanLine pos (pos + 4) \<noteq> tokVertical"
          "substring cleanLine pos (pos + 4) = tokBlank"
      | (none) "substring cleanLine pos (pos + 3) \<noteq> tokBranch"
          "substring cleanLine pos (pos + 3) \<noteq> tokCorner"
          "substring cleanLine pos (pos + 4) \<noteq> tokVertical"
          "substring cleanLine pos (pos + 4) \<noteq> tokBlank"
      by blast
    then show ?thesis
    proof cases
      case branch
      with lt "1.prems" have "scanPrefix (trim (drop (pos + 3) cleanLine)) pos level True = (cl', lv', fd')"
        by (simp add: scanPrefix.simps [of cleanLine])
      with "1.IH"(1) [OF lt branch] show ?thesis by simp
    next
      case corner
      with lt "1.prems" have "scanPrefix (trim (drop (pos + 3) cleanLine)) pos level True = (cl', lv', fd')"
        by (simp add: scanPrefix.simps [of cleanLine])
      with "1.IH"(2) [OF lt corner] show ?thesis by simp
    next
      case vertical
      with lt "1.prems" have "scanPrefix cleanLine (pos + 4) (level + 1) True = (cl', lv', fd')"
        by (simp add: scanPrefix.simps [of cleanLine pos])
      with "1.IH"(3) [OF lt vertical] show ?thesis by simp
    next
      case blank
      with lt "1.prems" have "scanPrefix cleanLine (pos + 4) (level + 1) True = (cl', lv', fd')"
        by (simp add: scanPrefix.simps [of cleanLine pos])
      with "1.IH"(4) [OF lt blank] show ?thesis by simp
    next
      case none
      with lt "1.prems" show ?thesis by (simp add: scanPrefix.simps [of cleanLine])
    qed
  qed
qed

lemma asciiLine_inv:
  assumes "inv (\<lambda>k. k + 1) st"
  shows "inv (\<lambda>k. k + 1) (asciiLine gen il st)"
proof -
  obtain cl lv fd where sp: "scanPrefix (snd il) 0 0 False = (cl, lv, fd)"
    by (cases "scanPrefix (snd il) 0 0 False") auto
  then have lv: "0 \<le> lv" by (rule scanPrefix_level)
  have add: "\<And>nm. inv (\<lambda>k. k + 1) (addNode gen nm lv lv st)"
    by (rule addNode_inv [OF assms]) (use lv in auto)
  from assms have ord: "depthOrdered (root st)"
    and all: "list_all (entryOk (\<lambda>k. k + 1) (root st)) (stack st)" by (simp_all add: inv_def)
  let ?r = "TreeNode (gen (created st)) (butlast (trim cl)) Folder 0 (Some True) (Some [])"
  have "depthOrdered (root st @ [?r])" using ord by (simp add: depthOrdered_def)
  moreover have "list_all (entryOk (\<lambda>k. k + 1) (root st @ [?r])) (stack st)"
    using all by (auto simp: list_all_iff intro: entryOk_append)
  moreover have "entryOk (\<lambda>k. k + 1) (root st @ [?r]) (Some [length (root st)], - 1)"
    by (simp add: entryOk_def)
  ultimately have rootcase: "inv (\<lambda>k. k + 1)
      (st\<lparr>root := root st @ [?r], stack := (Some [length (root st)], - 1) # stack st,
          created := Suc (created st)\<rparr>)"
    by (simp add: inv_def)
  show ?thesis
    using assms add rootcase sp by (simp add: asciiLine_def Let_def)
qed

lemma fold_inv:
  "(\<And>x st. P st \<Longrightarrow> P (f x st)) \<Longrightarrow> P st \<Longrightarrow> P (fold f xs st)"
  by (induction xs arbitrary: st) auto

lemma inv_initial: "inv b initial"
  by (simp add: inv_def initial_def depthOrdered_def)

lemma adjustDepth_props:
  "depth (adjustDepth k x) = depth x + k" "depthMono (adjustDepth k x) = depthMono x"
proof -
  show d: "\<And>x. depth (adjustDepth k x) = depth x + k"
  proof -
    fix x show "depth (adjustDepth k x) = depth x + k" by (cases x) simp
  qed
  show "depthMono (adjustDepth k x) = depthMono x"
  proof (induction x)
    case (TreeNode i n t dd e cs)
    show ?case
    proof (cases cs)
      case None then show ?thesis by simp
    next
      case (Some c)
      have "\<And>y. y \<in> set c \<Longrightarrow> depthMono (adjustDepth k y) = depthMono y"
        using TreeNode.IH Some by auto
      then show ?thesis using Some d by (auto simp: list_all_iff)
    qed
  qed
qed

lemma normalize_ordered: "depthOrdered rt \<Longrightarrow> depthOrdered (normalize rt)"
proof -
  assume o: "depthOrdered rt"
  show ?thesis
  proof (cases "\<exists>r c cs. rt = [r] \<and> children r = Some (c # cs) \<and> node_type r = Folder")
    case False
    then have "normalize rt = rt"
      by (auto simp: normalize_def split: list.splits option.splits)
    with o show ?thesis by simp
  next
    case True
    then obtain r c cs where r: "rt = [r]" "children r = Some (c # cs)" "node_type r = Folder"
      by blast
    then have n: "normalize rt = [set_children r (Some (map (adjustDepth 1) (c # cs)))]"
      by (simp add: normalize_def)
    from o r have "0 \<le> depth r" and "depthMono r" by (simp_all add: depthOrdered_def)
    then have "list_all (\<lambda>y. depth r \<le> depth y \<and> depthMono y) (c # cs)"
      using r(2) by (simp add: depthMono_children)
    then have "list_all (\<lambda>y. depth r \<le> depth y \<and> depthMono y) (map (adjustDepth 1) (c # cs))"
      by (auto simp: list_all_iff adjustDepth_props)
    then have "depthMono (set_children r (Some (map (adjustDepth 1) (c # cs))))"
      by (simp add: depthMono_children)
    with \<open>0 \<le> depth r\<close> show ?thesis unfolding n by (simp add: depthOrdered_def)
  qed
qed

lemma finish_ordered: "inv b st \<Longrightarrow> finish st = Success f \<Longrightarrow> depthOrdered f"
  by (auto simp: finish_def inv_def normalize_ordered split: if_splits)

lemma parseMarkdown_ordered: "parseMarkdown gen s = Success f \<Longrightarrow> depthOrdered f"
  unfolding parseMarkdown_def
  by (rule finish_ordered [where b = "\<lambda>k. k div 2"])
     (auto intro: fold_inv markdownLine_inv inv_initial)

lemma parseAscii_ordered: "parseAscii gen s = Success f \<Longrightarrow> depthOrdered f"
  unfolding parseAscii_def
  by (rule finish_ordered [where b = "\<lambda>k. k + 1"])
     (auto intro: fold_inv asciiLine_inv inv_initial)

lemma set_children_type [simp]: "node_type (set_children x cs) = node_type x"
  by (simp add: set_children_def)

lemma invA_created [simp]: "invA (st\<lparr>created := c\<rparr>) = invA st"
  by (simp add: invA_def)

lemma invB_created [simp]: "invB (st\<lparr>created := c\<rparr>) = invB st"
  by (simp add: invB_def)

lemma attach_invA:
  assumes i: "invA st" and d: "depth n = key" and nm: "depthStrict n"
  shows "invA (attach n key isFolder st)"
proof -
  let ?stk = "dropWhile (\<lambda>e. snd e \<ge> key) (stack st)"
  from i have ord: "list_all depthStrict (root st)"
    and all: "list_all (entryOk (\<lambda>k. k) (root st)) (stack st)" by (simp_all add: invA_def)
  have stk: "list_all (entryOk (\<lambda>k. k) (root st)) ?stk"
    using all by (auto simp: list_all_iff dest: set_dropWhileD)
  show ?thesis
  proof (cases rule: attach_cases [where n = n and key = key and isFolder = isFolder and st = st])
    case toplevel
    have "entryOk (\<lambda>k. k) (root st @ [n]) (Some [length (root st)], key)"
      using d by (simp add: entryOk_def)
    then show ?thesis unfolding toplevel(2) using ord nm by (simp add: invA_def)
  next
    case unlinked
    show ?thesis unfolding unlinked(2) using ord stk by (simp add: invA_def)
  next
    case (child p k0 rest parent cs)
    let ?root' = "push_child p n (root st)"
    from stk child(1,3) have "depth parent \<le> k0" by (auto simp: entryOk_def)
    then have lt: "depth parent < depth n" using child(2) d by simp
    from push_child_rel [of "(<)", OF ord child(3) lt nm]
    have "list_all depthStrict ?root'" by simp
    moreover have "list_all (entryOk (\<lambda>k. k) ?root') ?stk"
      using stk by (auto simp: list_all_iff intro: entryOk_push)
    moreover have "entryOk (\<lambda>k. k) ?root' (Some (p @ [length cs]), key)"
      using node_at_new [OF child(3,4), of n] d by (simp add: entryOk_def)
    ultimately show ?thesis unfolding child(5) by (simp add: invA_def)
  qed
qed

lemma dropWhile_keep_last:
  assumes "xs \<noteq> []" "\<not> P (last xs)"
  shows "dropWhile P xs = dropWhile P (butlast xs) @ [last xs]"
proof -
  have "xs = butlast xs @ [last xs]" using assms(1) by simp
  then have "dropWhile P xs = dropWhile P (butlast xs @ [last xs])" by simp
  also have "\<dots> = dropWhile P (butlast xs) @ [last xs]"
    using assms(2) by (simp add: dropWhile_append)
  finally show ?thesis .
qed

lemma attach_invB:
  assumes i: "invB st" and k: "0 \<le> key" and d: "depth n = key" and nm: "depthStrict n"
  shows "invB (attach n key isFolder st)"
proof -
  let ?P = "\<lambda>e :: ref \<times> int. snd e \<ge> key"
  let ?stk = "dropWhile ?P (stack st)"
  let ?ok = "\<lambda>f e. 0 \<le> snd e \<and> entryOk (\<lambda>k. k) f e"
  from i obtain r where r: "root st = [r]" "node_type r = Folder" "depth r \<le> 0" "strictBelow r"
    by (auto simp: invB_def)
  from i have ne: "stack st \<noteq> []" and la: "last (stack st) = (Some [0], - 1)"
    and bl: "list_all (?ok (root st)) (butlast (stack st))"
    by (simp_all add: invB_def)
  have "\<not> ?P (last (stack st))" using la k by simp
  from dropWhile_keep_last [where xs = "stack st" and P = ?P, OF ne this]
  have stk: "?stk = dropWhile ?P (butlast (stack st)) @ [(Some [0], - 1)]" using la by simp
  then have sne: "?stk \<noteq> []" and sla: "last ?stk = (Some [0], - 1)"
    and sbu: "butlast ?stk = dropWhile ?P (butlast (stack st))" by simp_all
  have sbl: "list_all (?ok (root st)) (butlast ?stk)"
    unfolding sbu using bl by (auto simp: list_all_iff dest: set_dropWhileD)
  show ?thesis
  proof (cases rule: attach_cases [where n = n and key = key and isFolder = isFolder and st = st])
    case toplevel
    with sne show ?thesis by simp
  next
    case unlinked
    show ?thesis unfolding unlinked(2) using r sne sla sbl k
      by (auto simp: invB_def)
  next
    case (child p k0 rest parent cs)
    let ?root' = "push_child p n (root st)"
    obtain i p' where p: "p = i # p'" using child(3) by (cases p) auto
    with child(3) r(1) have i0: "i = 0" by (simp split: if_splits)
    have "\<exists>r'. ?root' = [r'] \<and> node_type r' = Folder \<and> depth r' \<le> 0 \<and> strictBelow r'"
    proof (cases "p' = []")
      case True
      with child(3) p i0 r(1) have par: "parent = r" by simp
      have "depth r \<le> depth n" using r(3) k d by simp
      with r(4) nm child(4) par
      have "strictBelow (set_children r (Some (cs @ [n])))"
        by (simp add: strictBelow_def)
      moreover have "?root' = [set_children r (Some (cs @ [n]))]"
        using True p i0 r(1) child(4) par by simp
      ultimately show ?thesis using r(2,3) by simp
    next
      case False
      with child(3) p i0 r(1) obtain c0
        where c0: "children r = Some c0" "node_at c0 p' = Some parent"
        by (auto split: option.splits)
      have "rest \<noteq> []"
      proof
        assume "rest = []"
        with child(1) sla have "p = [0]" by simp
        with p False show False by simp
      qed
      with child(1) have "(Some p, k0) \<in> set (butlast ?stk)" by simp
      with sbl have "entryOk (\<lambda>k. k) (root st) (Some p, k0)" by (auto simp: list_all_iff)
      with child(3) have "depth parent \<le> k0" by (simp add: entryOk_def)
      then have lt: "depth parent < depth n" using child(2) d by simp
      from r(4) c0(1) have c0s: "list_all depthStrict c0"
        and c0d: "list_all (\<lambda>dd. depth r \<le> dd) (map depth c0)"
        by (simp_all add: strictBelow_def list_all_iff)
      from push_child_rel [of "(<)", OF c0s c0(2) lt nm]
      have a: "list_all depthStrict (push_child p' n c0)"
        and b: "map depth (push_child p' n c0) = map depth c0" by simp_all
      from c0d b have "list_all (\<lambda>dd. depth r \<le> dd) (map depth (push_child p' n c0))" by simp
      with a have "strictBelow (set_children r (Some (push_child p' n c0)))"
        by (simp add: strictBelow_def list_all_iff)
      moreover have "?root' = [set_children r (Some (push_child p' n c0))]"
        using False p i0 r(1) c0(1) by simp
      ultimately show ?thesis using r(2,3) by simp
    qed
    moreover have "list_all (?ok ?root') (butlast ?stk)"
      using sbl by (auto simp: list_all_iff intro: entryOk_push)
    moreover have "?ok ?root' (Some (p @ [length cs]), key)"
      using node_at_new [OF child(3,4), of n] d k by (simp add: entryOk_def)
    ultimately show ?thesis unfolding child(5) using sne sla
      by (auto simp: invB_def)
  qed
qed

lemma newNode_strict: "depthStrict (newNode gen nm d st)"
  by (simp add: newNode_def Let_def)

lemma addNode_invA: "invA st \<Longrightarrow> invA (addNode gen nm lv lv st)"
  unfolding addNode_def by (rule attach_invA) (simp_all add: newNode_props newNode_strict)

lemma addNode_invB: "invB st \<Longrightarrow> 0 \<le> lv \<Longrightarrow> invB (addNode gen nm lv lv st)"
  unfolding addNode_def by (rule attach_invB) (simp_all add: newNode_props newNode_strict)

lemma asciiLine_later:
  assumes "0 < fst il"
  shows "invA st \<Longrightarrow> invA (asciiLine gen il st)" and "invB st \<Longrightarrow> invB (asciiLine gen il st)"
proof -
  obtain cl lv fd where sp: "scanPrefix (snd il) 0 0 False = (cl, lv, fd)"
    by (cases "scanPrefix (snd il) 0 0 False") auto
  then have lv: "0 \<le> lv" by (rule scanPrefix_level)
  show "invA st \<Longrightarrow> invA (asciiLine gen il st)"
    using assms sp by (simp add: asciiLine_def Let_def addNode_invA)
  show "invB st \<Longrightarrow> invB (asciiLine gen il st)"
    using assms sp lv by (simp add: asciiLine_def Let_def addNode_invB)
qed

lemma invA_initial: "invA initial"
  by (simp add: invA_def initial_def)

lemma asciiLine_first: "invA (asciiLine gen (0, l) initial) \<or> invB (asciiLine gen (0, l) initial)"
proof -
  obtain cl lv fd where sp: "scanPrefix l 0 0 False = (cl, lv, fd)"
    by (cases "scanPrefix l 0 0 False") auto
  let ?r = "TreeNode (gen 0) (butlast (trim cl)) Folder 0 (Some True) (Some [])"
  have "invB (initial\<lparr>root := root initial @ [?r],
      stack := (Some [length (root initial)], - 1) # stack initial, created := Suc (created initial)\<rparr>)"
    by (simp add: invB_def initial_def strictBelow_def)
  then show ?thesis
    using sp invA_initial by (auto simp: asciiLine_def Let_def addNode_invA initial_def)
qed

lemma fold_inv_set:
  "(\<And>x st. x \<in> set xs \<Longrightarrow> P st \<Longrightarrow> P (f x st)) \<Longrightarrow> P st \<Longrightarrow> P (fold f xs st)"
  by (induction xs arbitrary: st) auto

lemma ascii_loop_inv:
  "invA (fold (asciiLine gen) (enumerate 0 (split_on nl s)) initial)
   \<or> invB (fold (asciiLine gen) (enumerate 0 (split_on nl s)) initial)"
proof -
  obtain l ls where ls: "split_on nl s = l # ls"
    using split_on_not_Nil [of nl s] by (cases "split_on nl s") auto
  have pos: "\<And>x. x \<in> set (enumerate (Suc 0) ls) \<Longrightarrow> 0 < fst x"
    by (auto simp: in_set_enumerate_eq)
  let ?P = "\<lambda>st. invA st \<or> invB st"
  have "?P (fold (asciiLine gen) (enumerate (Suc 0) ls) (asciiLine gen (0, l) initial))"
  proof (rule fold_inv_set [where P = ?P])
    show "?P (asciiLine gen (0, l) initial)" by (rule asciiLine_first)
  next
    fix x st assume "x \<in> set (enumerate (Suc 0) ls)" and "?P st"
    then show "?P (asciiLine gen x st)" using asciiLine_later [OF pos] by blast
  qed
  then show ?thesis by (simp add: ls)
qed

lemma adjustDepth_rel:
  assumes "\<And>a b. R (a + k) (b + k) = R a b"
  shows "depthRel R (adjustDepth k x) = depthRel R x"
proof (induction x)
  case (TreeNode i n t dd e cs)
  show ?case
  proof (cases cs)
    case None then show ?thesis by simp
  next
    case (Some c)
    have "\<And>y. y \<in> set c \<Longrightarrow> depthRel R (adjustDepth k y) = depthRel R y"
      using TreeNode.IH Some by auto
    then show ?thesis using Some assms by (auto simp: list_all_iff adjustDepth_props(1))
  qed
qed

lemma adjustDepth_strict: "depthStrict (adjustDepth k x) = depthStrict x"
  by (rule adjustDepth_rel) simp

lemma normalize_strict: "list_all depthStrict rt \<Longrightarrow> list_all depthStrict (normalize rt)"
proof -
  assume o: "list_all depthStrict rt"
  show ?thesis
  proof (cases "\<exists>r c cs. rt = [r] \<and> children r = Some (c # cs) \<and> node_type r = Folder")
    case False
    then have "normalize rt = rt"
      by (auto simp: normalize_def split: list.splits option.splits)
    with o show ?thesis by simp
  next
    case True
    then obtain r c cs where r: "rt = [r]" "children r = Some (c # cs)" "node_type r = Folder"
      by blast
    then have n: "normalize rt = [set_children r (Some (map (adjustDepth 1) (c # cs)))]"
      by (simp add: normalize_def)
    from o r have "list_all (\<lambda>y. depth r < depth y \<and> depthStrict y) (c # cs)"
      by (simp add: depthRel_children [of "(<)" r])
    then have "list_all (\<lambda>y. depth r < depth y \<and> depthStrict y) (map (adjustDepth 1) (c # cs))"
      by (auto simp: list_all_iff adjustDepth_props(1) adjustDepth_strict)
    then have "depthStrict (set_children r (Some (map (adjustDepth 1) (c # cs))))"
      by (simp add: depthRel_children [of "(<)" "set_children r cs'" for cs'])
    then show ?thesis unfolding n by simp
  qed
qed

lemma normalize_implicit:
  assumes "node_type r = Folder" "strictBelow r"
  shows "list_all depthStrict (normalize [r])"
proof (cases "children r")
  case None
  then show ?thesis by (simp add: normalize_def depthRel_children [of "(<)" r])
next
  case (Some c0)
  show ?thesis
  proof (cases c0)
    case Nil
    with Some show ?thesis by (simp add: normalize_def depthRel_children [of "(<)" r])
  next
    case (Cons c cs)
    with Some assms(1) have n: "normalize [r] = [set_children r (Some (map (adjustDepth 1) (c # cs)))]"
      by (simp add: normalize_def)
    from assms(2) Some Cons have "list_all (\<lambda>y. depth r \<le> depth y \<and> depthStrict y) (c # cs)"
      by (simp add: strictBelow_def)
    then have "list_all (\<lambda>y. depth r < depth y \<and> depthStrict y) (map (adjustDepth 1) (c # cs))"
      by (auto simp: list_all_iff adjustDepth_props(1) adjustDepth_strict)
    then have "depthStrict (set_children r (Some (map (adjustDepth 1) (c # cs))))"
      by (simp add: depthRel_children [of "(<)" "set_children r cs'" for cs'])
    then show ?thesis unfolding n by simp
  qed
qed

lemma parseAscii_increasing: "parseAscii gen s = Success f \<Longrightarrow> depthIncreasing f"
proof -
  let ?st = "fold (asciiLine gen) (enumerate 0 (split_on nl s)) initial"
  assume "parseAscii gen s = Success f"
  then have f: "f = normalize (root ?st)"
    by (simp add: parseAscii_def finish_def split: if_splits)
  from ascii_loop_inv [of gen s] show ?thesis
  proof
    assume "invA ?st"
    then show ?thesis unfolding f depthIncreasing_def by (simp add: invA_def normalize_strict)
  next
    assume "invB ?st"
    then obtain r where "root ?st = [r]" "node_type r = Folder" "strictBelow r"
      by (auto simp: invB_def)
    then show ?thesis unfolding f depthIncreasing_def by (simp add: normalize_implicit)
  qed
qed

text \<open>
  C2. The parsers do not keep the depth invariant, which is also what the field's
  documentation says. With four spaces of indentation (and a second root, so that no
  normalization runs) the child has depth \<open>floor(4 / 2) = 2\<close> below a parent of depth 0;
  a single file indented by two spaces is a top-level node of depth 1; in the ASCII
  format a file two continuation blocks deep, directly below the root folder, has
  depth 3 below a parent of depth 0.
\<close>

theorem depth_invariant_counterexample:
  "parseDirectoryStructure unaryId fourSpaceInput =
     Success [TreeNode (unaryId 0) (ascii ''a'') Folder 0 (Some True)
                (Some [TreeNode (unaryId 1) (ascii ''b.txt'') File 2 (Some True) None]),
              TreeNode (unaryId 2) (ascii ''c.txt'') File 0 (Some True) None]
   \<and> \<not> depthInvariant
         [TreeNode (unaryId 0) (ascii ''a'') Folder 0 (Some True)
            (Some [TreeNode (unaryId 1) (ascii ''b.txt'') File 2 (Some True) None]),
          TreeNode (unaryId 2) (ascii ''c.txt'') File 0 (Some True) None]
   \<and> parseDirectoryStructure unaryId indentedRootInput =
         Success [TreeNode (unaryId 0) (ascii ''a.txt'') File 1 (Some True) None]
   \<and> \<not> depthInvariant [TreeNode (unaryId 0) (ascii ''a.txt'') File 1 (Some True) None]
   \<and> parseDirectoryStructure unaryId skippedLevelInput =
         Success [TreeNode (unaryId 0) (ascii ''a'') Folder 0 (Some True)
                    (Some [TreeNode (unaryId 1) (ascii ''b'') File 3 (Some True) None])]
   \<and> \<not> depthInvariant
         [TreeNode (unaryId 0) (ascii ''a'') Folder 0 (Some True)
            (Some [TreeNode (unaryId 1) (ascii ''b'') File 3 (Some True) None])]"
  by code_simp

text \<open>
  What the loops do establish, whatever the indentation of the input: in every forest
  that a successful parse returns no depth is negative and no child is less deep than
  its parent, and in a forest from the ASCII parser every child is deeper than its
  parent.
\<close>

theorem parsed_depth_ordered:
  "(parseDirectoryStructure gen input = Success f \<longrightarrow>
      depthOrdered f \<and> (detectFormat (sanitizeInput input) = Ascii \<longrightarrow> depthIncreasing f))
   \<and> (parseMarkdown gen input = Success f \<longrightarrow> depthOrdered f)
   \<and> (parseAscii gen input = Success f \<longrightarrow> depthOrdered f \<and> depthIncreasing f)"
  by (auto simp: parseDirectoryStructure_def Let_def split: if_splits
        dest: parseMarkdown_ordered parseAscii_ordered parseAscii_increasing)

theorem parsed_depth_ordered_witness:
  "parseDirectoryStructure unaryId fourSpaceInput =
     Success [TreeNode (unaryId 0) (ascii ''a'') Folder 0 (Some True)
                (Some [TreeNode (unaryId 1) (ascii ''b.txt'') File 2 (Some True) None]),
              TreeNode (unaryId 2) (ascii ''c.txt'') File 0 (Some True) None]
   \<and> parseMarkdown unaryId fourSpaceInput =
     Success [TreeNode (unaryId 0) (ascii ''a'') Folder 0 (Some True)
                (Some [TreeNode (unaryId 1) (ascii ''b.txt'') File 2 (Some True) None]),
              TreeNode (unaryId 2) (ascii ''c.txt'') File 0 (Some True) None]
   \<and> depthOrdered
         [TreeNode (unaryId 0) (ascii ''a'') Folder 0 (Some True)
            (Some [TreeNode (unaryId 1) (ascii ''b.txt'') File 2 (Some True) None]),
          TreeNode (unaryId 2) (ascii ''c.txt'') File 0 (Some True) None]
   \<and> detectFormat (sanitizeInput skippedLevelInput) = Ascii
   \<and> parseDirectoryStructure unaryId skippedLevelInput =
         Success [TreeNode (unaryId 0) (ascii ''a'') Folder 0 (Some True)
                    (Some [TreeNode (unaryId 1) (ascii ''b'') File 3 (Some True) None])]
   \<and> parseAscii unaryId skippedLevelInput =
         Success [TreeNode (unaryId 0) (ascii ''a'') Folder 0 (Some True)
                    (Some [TreeNode (unaryId 1) (ascii ''b'') File 3 (Some True) None])]
   \<and> depthIncreasing
         [TreeNode (unaryId 0) (ascii ''a'') Folder 0 (Some True)
            (Some [TreeNode (unaryId 1) (ascii ''b'') File 3 (Some True) None])]"
proof -
  let ?m = "[TreeNode (unaryId 0) (ascii ''a'') Folder 0 (Some True)
                (Some [TreeNode (unaryId 1) (ascii ''b.txt'') File 2 (Some True) None]),
              TreeNode (unaryId 2) (ascii ''c.txt'') File 0 (Some True) None]"
  let ?a = "[TreeNode (unaryId 0) (ascii ''a'') Folder 0 (Some True)
                    (Some [TreeNode (unaryId 1) (ascii ''b'') File 3 (Some True) None])]"
  have p: "parseDirectoryStructure unaryId fourSpaceInput = Success ?m" by code_simp
  have p': "parseMarkdown unaryId fourSpaceInput = Success ?m" by code_simp
  have d: "detectFormat (sanitizeInput skippedLevelInput) = Ascii" by code_simp
  have q: "parseDirectoryStructure unaryId skippedLevelInput = Success ?a" by code_simp
  have q': "parseAscii unaryId skippedLevelInput = Success ?a" by code_simp
  from parsed_depth_ordered [of unaryId fourSpaceInput ?m] p p'
  have 1: "depthOrdered ?m" by blast
  from parsed_depth_ordered [of unaryId skippedLevelInput ?a] d q q'
  have 2: "depthIncreasing ?a" by blast
  from p p' 1 d q q' 2 show ?thesis by blast
qed

section \<open>The edit operations\<close>

lemma forest_ids_simps [simp]:
  "forest_ids [] = []" "forest_ids (x # xs) = ids_of x @ forest_ids xs"
  by (simp_all add: forest_ids_def)

lemma node_id_in_ids: "node_id x \<in> set (ids_of x)"
  by (cases x) simp

lemma toggle_absent: "t \<notin> set (ids_of x) \<Longrightarrow> toggleNode t x = x"
proof (induction x)
  case (TreeNode i n ty d e cs)
  have "map_option (map (toggleNode t)) cs = cs"
  proof (cases cs)
    case None then show ?thesis by simp
  next
    case (Some c)
    have "map (toggleNode t) c = c"
    proof (rule map_idI)
      fix x assume x: "x \<in> set c"
      with TreeNode.prems Some have "t \<notin> set (ids_of x)" by auto
      with TreeNode.IH Some x show "toggleNode t x = x" by auto
    qed
    with Some show ?thesis by simp
  qed
  with TreeNode.prems show ?case by auto
qed

lemma set_forest_ids: "set (forest_ids f) = (\<Union>x\<in>set f. set (ids_of x))"
  by (simp add: forest_ids_def)

lemma ids_of_children:
  "set (ids_of (TreeNode i n t d e cs)) = insert i (case cs of None \<Rightarrow> {} | Some c \<Rightarrow> set (forest_ids c))"
  by (auto simp: forest_ids_def split: option.splits)

lemma find_None_iff: "findNodeById f t = None \<longleftrightarrow> t \<notin> set (forest_ids f)"
  by (induction f t rule: findNodeById.induct)
     (auto simp: ids_of_children simp del: ids_of.simps split: option.splits)

lemma find_Some_in: "findNodeById f t = Some n \<Longrightarrow> t \<in> set (forest_ids f)"
  using find_None_iff [of f t] by auto

lemma find_Some_id: "findNodeById f t = Some n \<Longrightarrow> node_id n = t"
  by (induction f t rule: findNodeById.induct) (auto split: option.splits if_splits)


lemma rename_absent: "t \<notin> set (ids_of x) \<Longrightarrow> renameIn t nn x = x"
proof (induction x)
  case (TreeNode i n ty d e cs)
  have "map_option (map (renameIn t nn)) cs = cs"
  proof (cases cs)
    case None then show ?thesis by simp
  next
    case (Some c)
    have "map (renameIn t nn) c = c"
    proof (rule map_idI)
      fix x assume x: "x \<in> set c"
      with TreeNode.prems Some have "t \<notin> set (ids_of x)" by auto
      with TreeNode.IH Some x show "renameIn t nn x = x" by auto
    qed
    with Some show ?thesis by simp
  qed
  with TreeNode.prems show ?case by auto
qed

lemma flip_absent: "t \<notin> set (ids_of x) \<Longrightarrow> flipMatching t x = x"
proof (induction x)
  case (TreeNode i n ty d e cs)
  have "map_option (map (flipMatching t)) cs = cs"
  proof (cases cs)
    case None then show ?thesis by simp
  next
    case (Some c)
    have "map (flipMatching t) c = c"
    proof (rule map_idI)
      fix x assume x: "x \<in> set c"
      with TreeNode.prems Some have "t \<notin> set (ids_of x)" by auto
      with TreeNode.IH Some x show "flipMatching t x = x" by auto
    qed
    with Some show ?thesis by simp
  qed
  with TreeNode.prems show ?case by auto
qed

lemma delete_absent_node: "t \<notin> set (ids_of x) \<Longrightarrow> deleteIn t x = x"
proof (induction x)
  case (TreeNode i n ty d e cs)
  have "map_option (\<lambda>c. map (deleteIn t) (filter (\<lambda>x. node_id x \<noteq> t) c)) cs = cs"
  proof (cases cs)
    case None then show ?thesis by simp
  next
    case (Some c)
    have a: "\<And>x. x \<in> set c \<Longrightarrow> t \<notin> set (ids_of x)"
      using TreeNode.prems Some by auto
    then have "filter (\<lambda>x. node_id x \<noteq> t) c = c"
      using node_id_in_ids by (intro filter_True) auto
    moreover have "map (deleteIn t) c = c"
      using TreeNode.IH Some a by (intro map_idI) auto
    ultimately show ?thesis using Some by simp
  qed
  then show ?case by simp
qed

lemma forest_absent:
  assumes "t \<notin> set (forest_ids f)"
  shows "map (toggleNode t) f = f" and "map (renameIn t nn) f = f"
    and "map (flipMatching t) f = f" and "deleteNode f t = f"
proof -
  have a: "\<And>x. x \<in> set f \<Longrightarrow> t \<notin> set (ids_of x)"
    using assms by (auto simp: set_forest_ids)
  show "map (toggleNode t) f = f" using a by (intro map_idI) (auto simp: toggle_absent)
  show "map (renameIn t nn) f = f" using a by (intro map_idI) (auto simp: rename_absent)
  show "map (flipMatching t) f = f" using a by (intro map_idI) (auto simp: flip_absent)
  have "filter (\<lambda>x. node_id x \<noteq> t) f = f"
    using a node_id_in_ids by (intro filter_True) auto
  moreover have "map (deleteIn t) f = f"
    using a by (intro map_idI) (auto simp: delete_absent_node)
  ultimately show "deleteNode f t = f" by (simp add: deleteNode_def)
qed

lemma toggle_is_flip:
  "distinct (forest_ids f) \<Longrightarrow> map (toggleNode t) f = map (flipMatching t) f"
proof (induction f t rule: findNodeById.induct)
  case (1 t) show ?case by simp
next
  case (2 i n ty d e cs rest t)
  have dr: "distinct (forest_ids rest)" using "2.prems" by simp
  have dc: "\<And>c. cs = Some c \<Longrightarrow> distinct (forest_ids c)"
    using "2.prems" by (auto simp: forest_ids_def)
  show ?case
  proof (cases "i = t")
    case True
    have nc: "\<And>c. cs = Some c \<Longrightarrow> t \<notin> set (forest_ids c)"
      using "2.prems" True by (auto simp: forest_ids_def)
    have nr: "t \<notin> set (forest_ids rest)"
      using "2.prems" True by auto
    have "map_option (map (flipMatching t)) cs = cs"
      using nc forest_absent(3) by (cases cs) auto
    moreover have "map_option (map (toggleNode t)) cs = cs"
      using nc forest_absent(1) by (cases cs) auto
    ultimately show ?thesis using True nr forest_absent(1,3) by auto
  next
    case False
    show ?thesis
    proof (cases cs)
      case None
      with False "2.IH"(1) dr show ?thesis by simp
    next
      case (Some c)
      note c = this
      have hc: "map (toggleNode t) c = map (flipMatching t) c"
        using "2.IH"(2) False c dc by simp
      have "map (toggleNode t) rest = map (flipMatching t) rest"
      proof (cases "findNodeById c t")
        case None
        with "2.IH"(3) False c dr show ?thesis by simp
      next
        case (Some found)
        then have "t \<in> set (forest_ids c)" by (rule find_Some_in)
        then have "t \<notin> set (forest_ids rest)"
          using "2.prems" c by (auto simp: forest_ids_def)
        then show ?thesis using forest_absent(1,3) by simp
      qed
      with hc False c show ?thesis by simp
    qed
  qed
qed


lemma distinct_parts:
  assumes "distinct (forest_ids (TreeNode i n ty d e cs # rest))"
  shows "distinct (forest_ids rest)" and "i \<notin> set (forest_ids rest)"
    and "\<And>c. cs = Some c \<Longrightarrow> distinct (forest_ids c)"
    and "\<And>c. cs = Some c \<Longrightarrow> i \<notin> set (forest_ids c)"
    and "\<And>c. cs = Some c \<Longrightarrow> set (forest_ids c) \<inter> set (forest_ids rest) = {}"
  using assms by (auto simp: forest_ids_def)

lemma toggle_file_noop:
  "distinct (forest_ids f) \<Longrightarrow> findNodeById f t = Some m \<Longrightarrow> node_type m = File
   \<Longrightarrow> map (toggleNode t) f = f"
proof (induction f t rule: findNodeById.induct)
  case (1 t) then show ?case by simp
next
  case (2 i n ty d e cs rest t)
  note d = distinct_parts [OF "2.prems"(1)]
  show ?case
  proof (cases "i = t")
    case True
    with "2.prems"(2,3) have ty: "ty = File" by auto
    have "map_option (map (toggleNode t)) cs = cs"
      using d(4) True forest_absent(1) by (cases cs) auto
    moreover have "map (toggleNode t) rest = rest"
      using d(2) True forest_absent(1) by simp
    ultimately show ?thesis using ty by simp
  next
    case False
    show ?thesis
    proof (cases cs)
      case None
      with False "2.IH"(1) "2.prems" d(1) show ?thesis by simp
    next
      case (Some c)
      note c = this
      show ?thesis
      proof (cases "findNodeById c t")
        case None
        then have "t \<notin> set (forest_ids c)" by (simp add: find_None_iff)
        then have "map (toggleNode t) c = c" by (rule forest_absent(1))
        moreover have "map (toggleNode t) rest = rest"
          using "2.IH"(3) [OF False c None d(1)] "2.prems"(2,3) False c None by simp
        ultimately show ?thesis using False c by simp
      next
        case (Some found)
        then have "t \<in> set (forest_ids c)" by (rule find_Some_in)
        then have "t \<notin> set (forest_ids rest)" using d(5) [OF c] by auto
        then have "map (toggleNode t) rest = rest" by (rule forest_absent(1))
        moreover have "map (toggleNode t) c = c"
          using "2.IH"(2) [OF False c d(3) [OF c]] "2.prems"(2,3) False c Some by simp
        ultimately show ?thesis using False c by simp
      qed
    qed
  qed
qed

lemma rename_same:
  "distinct (forest_ids f) \<Longrightarrow> findNodeById f t = Some m
   \<Longrightarrow> map (renameIn t (name m)) f = f"
proof (induction f t rule: findNodeById.induct)
  case (1 t) then show ?case by simp
next
  case (2 i n ty d e cs rest t)
  note d = distinct_parts [OF "2.prems"(1)]
  show ?case
  proof (cases "i = t")
    case True
    with "2.prems"(2) have nm: "name m = n" by auto
    have "map (renameIn t (name m)) rest = rest"
      using d(2) True forest_absent(2) by simp
    then show ?thesis using nm True by simp
  next
    case False
    show ?thesis
    proof (cases cs)
      case None
      with False "2.IH"(1) "2.prems" d(1) show ?thesis by simp
    next
      case (Some c)
      note c = this
      show ?thesis
      proof (cases "findNodeById c t")
        case None
        then have "t \<notin> set (forest_ids c)" by (simp add: find_None_iff)
        then have "map (renameIn t (name m)) c = c" by (rule forest_absent(2))
        moreover have "map (renameIn t (name m)) rest = rest"
          using "2.IH"(3) [OF False c None d(1)] "2.prems"(2) False c None by simp
        ultimately show ?thesis using False c by simp
      next
        case (Some found)
        then have "t \<in> set (forest_ids c)" by (rule find_Some_in)
        then have "t \<notin> set (forest_ids rest)" using d(5) [OF c] by auto
        then have "map (renameIn t (name m)) rest = rest" by (rule forest_absent(2))
        moreover have "map (renameIn t (name m)) c = c"
          using "2.IH"(2) [OF False c d(3) [OF c]] "2.prems"(2) False c Some by simp
        ultimately show ?thesis using False c by simp
      qed
    qed
  qed
qed

lemma find_Some_ids: "findNodeById f t = Some m \<Longrightarrow> set (ids_of m) \<subseteq> set (forest_ids f)"
proof (induction f t rule: findNodeById.induct)
  case (1 t) then show ?case by simp
next
  case (2 i n ty d e cs rest t)
  then show ?case
    by (auto simp: forest_ids_def split: option.splits if_splits)
qed

lemma filter_disjoint: "set xs \<inter> S = {} \<Longrightarrow> filter (\<lambda>i. i \<notin> S) xs = xs"
  by (intro filter_True) auto

lemma delete_ids:
  "distinct (forest_ids f) \<Longrightarrow> findNodeById f t = Some m
   \<Longrightarrow> forest_ids (deleteNode f t) = filter (\<lambda>i. i \<notin> set (ids_of m)) (forest_ids f)"
proof (induction f t rule: findNodeById.induct)
  case (1 t) then show ?case by simp
next
  case (2 i n ty d e cs rest t)
  note d = distinct_parts [OF "2.prems"(1)]
  let ?x = "TreeNode i n ty d e cs"
  have xr: "set (ids_of ?x) \<inter> set (forest_ids rest) = {}"
    using d(2) d(5) by (cases cs) (auto simp: ids_of_children simp del: ids_of.simps)
  show ?case
  proof (cases "i = t")
    case True
    with "2.prems"(2) have m: "m = ?x" by auto
    have "deleteNode rest t = rest" using d(2) True forest_absent(4) by simp
    then have l: "deleteNode (?x # rest) t = rest" using True by (simp add: deleteNode_def)
    have "set (forest_ids rest) \<inter> set (ids_of ?x) = {}"
      using xr by blast
    then have "filter (\<lambda>i. i \<notin> set (ids_of ?x)) (forest_ids rest) = forest_ids rest"
      by (rule filter_disjoint)
    then show ?thesis unfolding l m by (simp del: ids_of.simps)
  next
    case False
    have step: "deleteNode (?x # rest) t = deleteIn t ?x # deleteNode rest t"
      using False by (simp add: deleteNode_def)
    show ?thesis
    proof (cases cs)
      case None
      have "findNodeById rest t = Some m" using "2.prems"(2) False None by simp
      then have sub: "set (ids_of m) \<subseteq> set (forest_ids rest)" by (rule find_Some_ids)
      have "forest_ids (deleteNode rest t) = filter (\<lambda>i. i \<notin> set (ids_of m)) (forest_ids rest)"
        using "2.IH"(1) [OF False None d(1)] "2.prems"(2) False None by simp
      moreover have "i \<notin> set (ids_of m)" using sub d(2) by auto
      ultimately show ?thesis unfolding step using None by simp
    next
      case (Some c)
      note c = this
      have dx: "ids_of (deleteIn t ?x) = i # forest_ids (deleteNode c t)"
        using c by (simp add: deleteNode_def forest_ids_def)
      have ix: "ids_of ?x = i # forest_ids c"
        using c by (simp add: forest_ids_def)
      show ?thesis
      proof (cases "findNodeById c t")
        case None
        then have "t \<notin> set (forest_ids c)" by (simp add: find_None_iff)
        then have dc: "deleteNode c t = c" by (rule forest_absent(4))
        have fr: "findNodeById rest t = Some m" using "2.prems"(2) False c None by simp
        then have sub: "set (ids_of m) \<subseteq> set (forest_ids rest)" by (rule find_Some_ids)
        have ih: "forest_ids (deleteNode rest t) = filter (\<lambda>i. i \<notin> set (ids_of m)) (forest_ids rest)"
          using "2.IH"(3) [OF False c None d(1)] fr by simp
        have "set (ids_of ?x) \<inter> set (ids_of m) = {}"
          using sub xr by blast
        then have fx: "filter (\<lambda>i. i \<notin> set (ids_of m)) (ids_of ?x) = ids_of ?x"
          by (rule filter_disjoint)
        have "t \<notin> set (ids_of ?x)"
          using False \<open>t \<notin> set (forest_ids c)\<close> c
          by (simp add: ids_of_children del: ids_of.simps)
        then have dxx: "deleteIn t ?x = ?x" by (rule delete_absent_node)
        show ?thesis
          by (simp only: step forest_ids_simps filter_append dxx ih fx)
      next
        case (Some found)
        then have fm: "findNodeById c t = Some m" using "2.prems"(2) False c by simp
        then have sub: "set (ids_of m) \<subseteq> set (forest_ids c)" by (rule find_Some_ids)
        have "t \<in> set (forest_ids c)" using fm by (rule find_Some_in)
        then have "t \<notin> set (forest_ids rest)" using d(5) [OF c] by auto
        then have dr: "deleteNode rest t = rest" by (rule forest_absent(4))
        have ih: "forest_ids (deleteNode c t) = filter (\<lambda>i. i \<notin> set (ids_of m)) (forest_ids c)"
          using "2.IH"(2) [OF False c d(3) [OF c]] fm by simp
        have "set (forest_ids rest) \<inter> set (ids_of m) = {}"
          using sub d(5) [OF c] by blast
        then have fr: "filter (\<lambda>i. i \<notin> set (ids_of m)) (forest_ids rest) = forest_ids rest"
          by (rule filter_disjoint)
        have ni: "i \<notin> set (ids_of m)" using sub d(4) [OF c] by auto
        have fx: "filter (\<lambda>i. i \<notin> set (ids_of m)) (ids_of ?x) = ids_of (deleteIn t ?x)"
          unfolding dx ix ih using ni by simp
        show ?thesis
          by (simp only: step forest_ids_simps filter_append dr fr fx)
      qed
    qed
  qed
qed

lemma descendants_ids: "x \<in> set (descendants m) \<Longrightarrow> node_id x \<in> set (ids_of m)"
proof (induction m arbitrary: x)
  case (TreeNode i n ty d e cs)
  show ?case
  proof (cases cs)
    case None
    with TreeNode.prems show ?thesis by simp
  next
    case (Some c)
    with TreeNode.prems obtain y where y: "y \<in> set c" and x: "x = y \<or> x \<in> set (descendants y)"
      by auto
    have "node_id x \<in> set (ids_of y)"
    proof (cases "x = y")
      case True
      then show ?thesis by (simp add: node_id_in_ids)
    next
      case False
      with x have "x \<in> set (descendants y)" by simp
      with TreeNode.IH Some y show ?thesis by auto
    qed
    with y Some show ?thesis by auto
  qed
qed

lemma delete_target_gone_node: "node_id x \<noteq> t \<Longrightarrow> t \<notin> set (ids_of (deleteIn t x))"
proof (induction x)
  case (TreeNode i n ty d e cs)
  show ?case
  proof (cases cs)
    case None
    with TreeNode.prems show ?thesis by simp
  next
    case (Some c)
    have "\<And>y. y \<in> set c \<Longrightarrow> node_id y \<noteq> t \<Longrightarrow> t \<notin> set (ids_of (deleteIn t y))"
      using TreeNode.IH Some by auto
    with TreeNode.prems Some show ?thesis by auto
  qed
qed

lemma delete_target_gone: "t \<notin> set (forest_ids (deleteNode f t))"
  using delete_target_gone_node by (auto simp: deleteNode_def forest_ids_def)

text \<open>
  C5. \<open>Delete(id)\<close> leaves no node with that identifier in the forest, and the selection
  becomes null if it was the deleted identifier and stays otherwise. In a forest with
  pairwise distinct identifiers (what "the node matching id" presupposes) in which the
  identifier is found at the node \<open>m\<close>, the identifiers that remain are, in order, those
  outside the subtree of \<open>m\<close>, and neither \<open>m\<close> nor any of its descendants is findable by
  its identifier afterwards.
\<close>

theorem delete_removes_subtree:
  "findNodeById (nodes (treeReducer state (DELETE_NODE t))) t = None
   \<and> selectedNodeId (treeReducer state (DELETE_NODE t)) =
       (if selectedNodeId state = Some t then None else selectedNodeId state)
   \<and> (distinct (forest_ids (nodes state)) \<longrightarrow> findNodeById (nodes state) t = Some m \<longrightarrow>
        forest_ids (nodes (treeReducer state (DELETE_NODE t))) =
          filter (\<lambda>i. i \<notin> set (ids_of m)) (forest_ids (nodes state))
        \<and> (\<forall>x \<in> set (m # descendants m).
              findNodeById (nodes (treeReducer state (DELETE_NODE t))) (node_id x) = None))"
proof (intro conjI impI)
  show "findNodeById (nodes (treeReducer state (DELETE_NODE t))) t = None"
    by (simp add: find_None_iff delete_target_gone)
  show "selectedNodeId (treeReducer state (DELETE_NODE t)) =
          (if selectedNodeId state = Some t then None else selectedNodeId state)"
    by simp
next
  assume d: "distinct (forest_ids (nodes state))" and f: "findNodeById (nodes state) t = Some m"
  show ids: "forest_ids (nodes (treeReducer state (DELETE_NODE t))) =
          filter (\<lambda>i. i \<notin> set (ids_of m)) (forest_ids (nodes state))"
    using delete_ids [OF d f] by simp
  show "\<forall>x \<in> set (m # descendants m).
          findNodeById (nodes (treeReducer state (DELETE_NODE t))) (node_id x) = None"
  proof
    fix x assume "x \<in> set (m # descendants m)"
    then have "node_id x \<in> set (ids_of m)"
      using node_id_in_ids descendants_ids by auto
    then have "node_id x \<notin> set (forest_ids (nodes (treeReducer state (DELETE_NODE t))))"
      unfolding ids by simp
    then show "findNodeById (nodes (treeReducer state (DELETE_NODE t))) (node_id x) = None"
      using find_None_iff by blast
  qed
qed

theorem delete_removes_subtree_witness:
  "distinct (forest_ids (nodes sampleState))
   \<and> findNodeById (nodes sampleState) (ascii ''1'') = Some sampleFolder
   \<and> sampleFile \<in> set (descendants sampleFolder)
   \<and> findNodeById (nodes (treeReducer sampleState (DELETE_NODE (ascii ''1'')))) (ascii ''1'') = None
   \<and> findNodeById (nodes (treeReducer sampleState (DELETE_NODE (ascii ''1'')))) (node_id sampleFile) = None
   \<and> selectedNodeId (treeReducer sampleState (DELETE_NODE (ascii ''1''))) = None"
proof -
  have d: "distinct (forest_ids (nodes sampleState))" by code_simp
  have f: "findNodeById (nodes sampleState) (ascii ''1'') = Some sampleFolder" by code_simp
  have m: "sampleFile \<in> set (sampleFolder # descendants sampleFolder)" by code_simp
  have s: "selectedNodeId sampleState = Some (ascii ''1'')" by code_simp
  have m': "sampleFile \<in> set (descendants sampleFolder)" by code_simp
  note t = delete_removes_subtree [of sampleState "ascii ''1''" sampleFolder]
  from t d f m have "findNodeById (nodes (treeReducer sampleState (DELETE_NODE (ascii ''1'')))) (node_id sampleFile) = None"
    by blast
  moreover from t have "findNodeById (nodes (treeReducer sampleState (DELETE_NODE (ascii ''1'')))) (ascii ''1'') = None"
    by blast
  moreover from t s have "selectedNodeId (treeReducer sampleState (DELETE_NODE (ascii ''1''))) = None"
    by simp
  ultimately show ?thesis using d f m' by blast
qed

text \<open>
  C6. \<open>ToggleExpand(id)\<close>: when no node matches, the forest is unchanged. In a forest with
  pairwise distinct identifiers the new forest is the old one with the flag of the
  folder that matches flipped and every other node and field as before, and when the
  matching node is a file the forest is unchanged. The selection is never touched.
\<close>

theorem toggle_flips_one_folder:
  "(findNodeById (nodes state) t = None \<longrightarrow>
      nodes (treeReducer state (TOGGLE_EXPAND t)) = nodes state)
   \<and> (distinct (forest_ids (nodes state)) \<longrightarrow>
        nodes (treeReducer state (TOGGLE_EXPAND t)) = map (flipMatching t) (nodes state)
        \<and> (findNodeById (nodes state) t = Some m \<and> node_type m = File \<longrightarrow>
             nodes (treeReducer state (TOGGLE_EXPAND t)) = nodes state))
   \<and> selectedNodeId (treeReducer state (TOGGLE_EXPAND t)) = selectedNodeId state"
proof (intro conjI impI)
  assume "findNodeById (nodes state) t = None"
  then have "t \<notin> set (forest_ids (nodes state))" by (simp add: find_None_iff)
  then show "nodes (treeReducer state (TOGGLE_EXPAND t)) = nodes state"
    by (simp add: toggleNodeExpand_def forest_absent(1))
next
  assume "distinct (forest_ids (nodes state))"
  then show "nodes (treeReducer state (TOGGLE_EXPAND t)) = map (flipMatching t) (nodes state)"
    by (simp add: toggleNodeExpand_def toggle_is_flip)
next
  assume "distinct (forest_ids (nodes state))"
    and "findNodeById (nodes state) t = Some m \<and> node_type m = File"
  then show "nodes (treeReducer state (TOGGLE_EXPAND t)) = nodes state"
    by (simp add: toggleNodeExpand_def toggle_file_noop)
next
  show "selectedNodeId (treeReducer state (TOGGLE_EXPAND t)) = selectedNodeId state"
    by simp
qed

theorem toggle_flips_one_folder_witness:
  "distinct (forest_ids (nodes sampleState))
   \<and> findNodeById (nodes sampleState) (ascii ''2'') = Some sampleFile
   \<and> node_type sampleFile = File
   \<and> nodes (treeReducer sampleState (TOGGLE_EXPAND (ascii ''2''))) = nodes sampleState
   \<and> findNodeById (nodes sampleState) (ascii ''9'') = None
   \<and> nodes (treeReducer sampleState (TOGGLE_EXPAND (ascii ''9''))) = nodes sampleState
   \<and> nodes (treeReducer sampleState (TOGGLE_EXPAND (ascii ''1''))) =
       [TreeNode (ascii ''1'') (ascii ''src'') Folder 0 (Some False) (Some [sampleFile]),
        TreeNode (ascii ''3'') (ascii ''README.md'') File 0 None None]"
proof -
  have d: "distinct (forest_ids (nodes sampleState))" by code_simp
  have f: "findNodeById (nodes sampleState) (ascii ''2'') = Some sampleFile" by code_simp
  have k: "node_type sampleFile = File" by code_simp
  have n: "findNodeById (nodes sampleState) (ascii ''9'') = None" by code_simp
  have e: "map (flipMatching (ascii ''1'')) (nodes sampleState) =
       [TreeNode (ascii ''1'') (ascii ''src'') Folder 0 (Some False) (Some [sampleFile]),
        TreeNode (ascii ''3'') (ascii ''README.md'') File 0 None None]" by code_simp
  from toggle_flips_one_folder [of sampleState "ascii ''2''" sampleFile] d f k
  have 1: "nodes (treeReducer sampleState (TOGGLE_EXPAND (ascii ''2''))) = nodes sampleState"
    by blast
  from toggle_flips_one_folder [of sampleState "ascii ''9''" sampleFile] n
  have 2: "nodes (treeReducer sampleState (TOGGLE_EXPAND (ascii ''9''))) = nodes sampleState"
    by blast
  from toggle_flips_one_folder [of sampleState "ascii ''1''" sampleFile] d
  have "nodes (treeReducer sampleState (TOGGLE_EXPAND (ascii ''1''))) =
          map (flipMatching (ascii ''1'')) (nodes sampleState)"
    by blast
  with e have 3: "nodes (treeReducer sampleState (TOGGLE_EXPAND (ascii ''1''))) =
       [TreeNode (ascii ''1'') (ascii ''src'') Folder 0 (Some False) (Some [sampleFile]),
        TreeNode (ascii ''3'') (ascii ''README.md'') File 0 None None]" by simp
  from d f k 1 n 2 3 show ?thesis by blast
qed

text \<open>
  C9. In a forest with pairwise distinct identifiers, renaming the node found for an
  identifier to the name it has leaves the forest, and the whole state, as it was.
\<close>

theorem rename_to_current_name:
  "distinct (forest_ids (nodes state)) \<Longrightarrow> findNodeById (nodes state) t = Some m
   \<Longrightarrow> nodes (treeReducer state (RENAME_NODE t (name m))) = nodes state
       \<and> treeReducer state (RENAME_NODE t (name m)) = state"
  by (simp add: renameNode_def rename_same)

theorem rename_to_current_name_witness:
  "distinct (forest_ids (nodes sampleState))
   \<and> findNodeById (nodes sampleState) (ascii ''2'') = Some sampleFile
   \<and> name sampleFile = ascii ''index.ts''
   \<and> nodes (treeReducer sampleState (RENAME_NODE (ascii ''2'') (ascii ''index.ts''))) = nodes sampleState"
proof -
  have d: "distinct (forest_ids (nodes sampleState))" by code_simp
  have f: "findNodeById (nodes sampleState) (ascii ''2'') = Some sampleFile" by code_simp
  have k: "name sampleFile = ascii ''index.ts''" by code_simp
  from rename_to_current_name [OF d f] k
  have "nodes (treeReducer sampleState (RENAME_NODE (ascii ''2'') (ascii ''index.ts''))) = nodes sampleState"
    by simp
  with d f k show ?thesis by blast
qed

end
